theory Spec2Isabelle
  imports Main "HOL-Library.Char_ord" "HOL-Library.List_Lexorder"
begin

section \<open>Strings\<close>

text \<open>
  A JavaScript string is a sequence of UTF-16 code units. The model uses \<open>string\<close>:
  a \<open>char\<close> stands for a code unit below 256, which covers every character the patterns
  of the program name. Strings are compared with \<open><\<close> and \<open>>\<close> code unit by code unit,
  which is the lexicographic order of \<open>List_Lexorder\<close> over \<open>Char_ord\<close>.
\<close>

definition digits :: "char list" where
  "digits = ''0123456789''"

definition uppers :: "char list" where
  "uppers = ''ABCDEFGHIJKLMNOPQRSTUVWXYZ''"

definition lowers :: "char list" where
  "lowers = ''abcdefghijklmnopqrstuvwxyz''"

text \<open>The code units below 256 that \<open>\s\<close> matches: tab, line feed, vertical tab, form feed,
  carriage return, space and no-break space.\<close>

definition spaces :: "char list" where
  "spaces = [CHR 0x09, CHR 0x0A, CHR 0x0B, CHR 0x0C, CHR 0x0D, CHR 0x20, CHR 0xA0]"

text \<open>\<open>\w\<close>: the characters that count as part of a word for \<open>\b\<close>.\<close>

definition is_word :: "char \<Rightarrow> bool" where
  "is_word c = (c \<in> set (uppers @ lowers @ digits @ ''_''))"

text \<open>\<open>String.prototype.toLowerCase\<close> on code units below 256: the ASCII capitals and the
  Latin-1 capitals (all of \<open>0xC0..0xDE\<close> but the multiplication sign) move up by 32.\<close>

definition lower_char :: "char \<Rightarrow> char" where
  "lower_char c =
     (let n = (of_char c :: nat)
      in if (65 \<le> n \<and> n \<le> 90) \<or> (192 \<le> n \<and> n \<le> 222 \<and> n \<noteq> 215) then char_of (n + 32) else c)"

definition toLowerCase :: "string \<Rightarrow> string" where
  "toLowerCase s = map lower_char s"

definition upper_ascii :: "char \<Rightarrow> char" where
  "upper_ascii c = (let n = (of_char c :: nat) in if 97 \<le> n \<and> n \<le> 122 then char_of (n - 32) else c)"

text \<open>\<open>String.prototype.indexOf\<close>: the first position where \<open>m\<close> occurs, \<open>None\<close> for \<open>-1\<close>.\<close>

fun indexOf_from :: "string \<Rightarrow> string \<Rightarrow> nat \<Rightarrow> nat option" where
  "indexOf_from [] m i = (if m = [] then Some i else None)"
| "indexOf_from (c # cs) m i =
     (if take (length m) (c # cs) = m then Some i else indexOf_from cs m (Suc i))"

definition indexOf :: "string \<Rightarrow> string \<Rightarrow> nat option" where
  "indexOf s m = indexOf_from s m 0"


section \<open>Regular expressions\<close>

text \<open>
  The regular expression literals of the program, as terms. \<open>Cls cs\<close> is a character class
  (or a single character), \<open>NCls cs\<close> a negated class, \<open>Rep r mn mx g\<close> the quantifier
  \<open>r{mn,mx}\<close> (\<open>mx = None\<close> for no upper bound, \<open>g\<close> for greedy), \<open>WordB\<close> is \<open>\b\<close>, \<open>Bol\<close> and \<open>Eol\<close>
  are \<open>^\<close> and \<open>$\<close> without the multiline flag. None of the literals has a back-reference or a
  look-around, and where the program reads capture groups their position is fixed.
\<close>

datatype re =
    Cls "char list"
  | NCls "char list"
  | Seq re re
  | Alt re re
  | Rep re nat "nat option" bool
  | WordB
  | Bol
  | Eol
  | Eps

fun rsize :: "re \<Rightarrow> nat" where
  "rsize (Seq a b) = rsize a + rsize b + 1"
| "rsize (Alt a b) = rsize a + rsize b + 1"
| "rsize (Rep r mn mx g) = rsize r + mn + 1"
| "rsize _ = 0"

text \<open>\<open>\b\<close> holds between the previous character \<open>p\<close> (\<open>None\<close> at the start of the input) and
  the rest \<open>xs\<close> of the input when exactly one side is a word character.\<close>

definition at_boundary :: "char option \<Rightarrow> string \<Rightarrow> bool" where
  "at_boundary p xs =
     ((case p of None \<Rightarrow> False | Some c \<Rightarrow> is_word c) \<noteq>
      (case xs of [] \<Rightarrow> False | c # _ \<Rightarrow> is_word c))"

fun dec :: "nat option \<Rightarrow> nat option" where
  "dec None = None"
| "dec (Some n) = Some (n - 1)"

text \<open>
  The backtracking matcher of ECMAScript, in continuation-passing style: \<open>mt r p xs k\<close> matches
  \<open>r\<close> at the front of \<open>xs\<close> (the character before it being \<open>p\<close>) and hands the character
  last read and the rest of the input to \<open>k\<close>; \<open>None\<close> is failure, and a failure of \<open>k\<close>
  makes the matcher try its next alternative. An alternation tries its left branch first; a
  greedy quantifier tries one more round before it tries to stop, a lazy one the other way
  round; once the lower bound is met, a round that reads nothing is refused (the step
  RepeatMatcher of the standard). The tests \<open>length ys \<le> length xs\<close> always hold, the rest
  handed on being a suffix of the input; they make the recursion well-founded.
\<close>

function mt :: "re \<Rightarrow> char option \<Rightarrow> string \<Rightarrow> (char option \<Rightarrow> string \<Rightarrow> 'a option) \<Rightarrow> 'a option" where
  "mt (Cls cs) p xs k =
     (case xs of [] \<Rightarrow> None | c # ys \<Rightarrow> if c \<in> set cs then k (Some c) ys else None)"
| "mt (NCls cs) p xs k =
     (case xs of [] \<Rightarrow> None | c # ys \<Rightarrow> if c \<notin> set cs then k (Some c) ys else None)"
| "mt (Seq a b) p xs k =
     mt a p xs (\<lambda>q ys. if length ys \<le> length xs then mt b q ys k else None)"
| "mt (Alt a b) p xs k =
     (case mt a p xs k of Some v \<Rightarrow> Some v | None \<Rightarrow> mt b p xs k)"
| "mt (Rep r mn mx g) p xs k =
     (if mx = Some 0 then k p xs
      else if 0 < mn then
        mt r p xs (\<lambda>q ys. if length ys \<le> length xs
                           then mt (Rep r (mn - 1) (dec mx) g) q ys k else None)
      else if g then
        (case mt r p xs (\<lambda>q ys. if length ys < length xs
                                 then mt (Rep r 0 (dec mx) g) q ys k else None) of
           Some v \<Rightarrow> Some v
         | None \<Rightarrow> k p xs)
      else
        (case k p xs of
           Some v \<Rightarrow> Some v
         | None \<Rightarrow> mt r p xs (\<lambda>q ys. if length ys < length xs
                                      then mt (Rep r 0 (dec mx) g) q ys k else None)))"
| "mt WordB p xs k = (if at_boundary p xs then k p xs else None)"
| "mt Bol p xs k = (if p = None then k p xs else None)"
| "mt Eol p xs k = (if xs = [] then k p xs else None)"
| "mt Eps p xs k = k p xs"
  by pat_completeness auto
termination
  by (relation "inv_image (less_than <*lex*> less_than) (\<lambda>(r, p, xs, k). (length xs, rsize r))")
     auto

text \<open>One attempt at one position: the character last read and the rest of the input after
  the first match the backtracking finds there.\<close>

definition exec_at :: "re \<Rightarrow> char option \<Rightarrow> string \<Rightarrow> (char option \<times> string) option" where
  "exec_at r p xs = mt r p xs (\<lambda>q ys. Some (q, ys))"

subsection \<open>Pattern notation\<close>

fun seqs :: "re list \<Rightarrow> re" where
  "seqs [] = Eps"
| "seqs [r] = r"
| "seqs (r # rs) = Seq r (seqs rs)"

fun alts :: "re list \<Rightarrow> re" where
  "alts [] = NCls []"
| "alts [r] = r"
| "alts (r # rs) = Alt r (alts rs)"

definition D :: re where
  "D = Cls digits"

definition lit :: "string \<Rightarrow> re" where
  "lit s = seqs (map (\<lambda>c. Cls [c]) s)"

text \<open>A literal under the \<open>i\<close> flag: each letter in either case.\<close>

definition liti :: "string \<Rightarrow> re" where
  "liti s = seqs (map (\<lambda>c. Cls [lower_char c, upper_ascii c]) s)"

definition opt :: "re \<Rightarrow> re" where
  "opt r = Rep r 0 (Some 1) True"

definition star :: "re \<Rightarrow> re" where
  "star r = Rep r 0 None True"

definition plus :: "re \<Rightarrow> re" where
  "plus r = Rep r 1 None True"

definition rep :: "re \<Rightarrow> nat \<Rightarrow> nat \<Rightarrow> re" where
  "rep r m n = Rep r m (Some n) True"

text \<open>\<open>\b r \b\<close>: every pattern of \<open>maskSensitiveInfo\<close> has this shape.\<close>

definition wb :: "re \<Rightarrow> re" where
  "wb r = Seq WordB (Seq r WordB)"


section \<open>String methods that take a regular expression\<close>

text \<open>
  \<open>String.prototype.replace\<close> with a global pattern and a replacer function
  \<open>f match offset string\<close>. The search goes through the input from the left; at a match that
  read something, the replacement stands for the match and the search goes on behind it; a
  match that read nothing inserts its replacement and the search moves one character on.
\<close>

function replace_from :: "re \<Rightarrow> (string \<Rightarrow> nat \<Rightarrow> string \<Rightarrow> string) \<Rightarrow> string \<Rightarrow> nat \<Rightarrow> char option \<Rightarrow> string \<Rightarrow> string" where
  "replace_from r f whole off p xs =
     (case exec_at r p xs of
        Some (q, ys) \<Rightarrow>
          (if length ys < length xs then
             f (take (length xs - length ys) xs) off whole
               @ replace_from r f whole (off + (length xs - length ys)) q ys
           else
             f [] off whole
               @ (case xs of [] \<Rightarrow> [] | c # cs \<Rightarrow> c # replace_from r f whole (Suc off) (Some c) cs))
      | None \<Rightarrow> (case xs of [] \<Rightarrow> [] | c # cs \<Rightarrow> c # replace_from r f whole (Suc off) (Some c) cs))"
  by pat_completeness auto
termination
  by (relation "measure (\<lambda>(r, f, whole, off, p, xs). length xs)") auto

declare replace_from.simps [simp del]

definition replace_fn :: "re \<Rightarrow> (string \<Rightarrow> nat \<Rightarrow> string \<Rightarrow> string) \<Rightarrow> string \<Rightarrow> string" where
  "replace_fn r f s = replace_from r f s 0 None s"

text \<open>\<open>replace\<close> with a replacement string (none of the program's has a \<open>$\<close>).\<close>

definition replace_str :: "re \<Rightarrow> string \<Rightarrow> string \<Rightarrow> string" where
  "replace_str r rp s = replace_fn r (\<lambda>m off whole. rp) s"

text \<open>\<open>String.prototype.match\<close> with a global pattern: the matches, from the left.\<close>

function match_from :: "re \<Rightarrow> char option \<Rightarrow> string \<Rightarrow> string list" where
  "match_from r p xs =
     (case exec_at r p xs of
        Some (q, ys) \<Rightarrow>
          (if length ys < length xs then
             take (length xs - length ys) xs # match_from r q ys
           else [] # (case xs of [] \<Rightarrow> [] | c # cs \<Rightarrow> match_from r (Some c) cs))
      | None \<Rightarrow> (case xs of [] \<Rightarrow> [] | c # cs \<Rightarrow> match_from r (Some c) cs))"
  by pat_completeness auto
termination
  by (relation "measure (\<lambda>(r, p, xs). length xs)") auto

declare match_from.simps [simp del]

definition match_all :: "re \<Rightarrow> string \<Rightarrow> string list" where
  "match_all r s = match_from r None s"

text \<open>\<open>RegExp.prototype.test\<close> of a pattern without the global flag: is there a match at some
  position, the end of the input included.\<close>

fun test_from :: "re \<Rightarrow> char option \<Rightarrow> string \<Rightarrow> bool" where
  "test_from r p [] = (exec_at r p [] \<noteq> None)"
| "test_from r p (c # cs) = (exec_at r p (c # cs) \<noteq> None \<or> test_from r (Some c) cs)"

definition re_test :: "re \<Rightarrow> string \<Rightarrow> bool" where
  "re_test r s = test_from r None s"


section \<open>utils/pii.ts\<close>

text \<open>\<open>isMaskingEnabled\<close> (lines 8-16); \<open>env\<close> is \<open>process.env.MASK_SENSITIVE_INFO\<close>, \<open>None\<close> when
  the variable is not set.\<close>

definition isMaskingEnabled :: "string option \<Rightarrow> bool" where
  "isMaskingEnabled env =
     (case env of
        None \<Rightarrow> True
      | Some v \<Rightarrow>
          if v = [] then True
          else
            let value = toLowerCase v in
              if value \<in> set [''0'', ''false'', ''no'', ''off''] then False
              else if value \<in> set [''1'', ''true'', ''yes'', ''on''] then True
              else True)"

text \<open>\<open>isLikelyPhoneNumber\<close> (lines 29-34): \<open>str.replace(/\D/g, '')\<close> is between 7 and 15 long.\<close>

definition isLikelyPhoneNumber :: "string \<Rightarrow> bool" where
  "isLikelyPhoneNumber str =
     (let digitsOnly = replace_str (NCls digits) [] str
      in 7 \<le> length digitsOnly \<and> length digitsOnly \<le> 15)"

text \<open>\<open>/https?:\/\/[^\s]*$/\<close>\<close>

definition urlPrefixRegex :: re where
  "urlPrefixRegex = seqs [lit ''http'', opt (lit ''s''), lit ''://'', star (NCls spaces), Eol]"

text \<open>\<open>isPartOfUrl\<close> (lines 37-46). The position is that of the first occurrence of the
  matched text in \<open>fullText\<close>, as \<open>fullText.indexOf(match)\<close> gives it.\<close>

definition isPartOfUrl :: "string \<Rightarrow> string \<Rightarrow> bool" where
  "isPartOfUrl match fullText =
     (case indexOf fullText match of
        None \<Rightarrow> False
      | Some matchIndex \<Rightarrow>
          let textBeforeMatch = take matchIndex fullText
          in re_test urlPrefixRegex textBeforeMatch)"

text \<open>\<open>/\b[A-Za-z0-9._%+-]+@[A-Za-z0-9.-]+\.[A-Z|a-z]{2,}\b/g\<close>\<close>

definition emailPattern :: re where
  "emailPattern =
     wb (seqs [plus (Cls (uppers @ lowers @ digits @ ''._%+-'')), lit ''@'',
               plus (Cls (uppers @ lowers @ digits @ ''.-'')), lit ''.'',
               Rep (Cls (uppers @ ''|'' @ lowers)) 2 None True])"

text \<open>The five card patterns (lines 56-63): Visa, Mastercard, American Express, Discover and
  \<open>/\b(?:\d[ -]*?){13,16}\b/g\<close>.\<close>

definition creditCardPatterns :: "re list" where
  "creditCardPatterns = [
     wb (seqs [lit ''4'', rep D 12 12, opt (rep D 3 3)]),
     wb (seqs [alts [seqs [lit ''5'', Cls ''12345'', rep D 2 2],
                     seqs [lit ''222'', Cls ''123456789''],
                     seqs [lit ''22'', Cls ''3456789'', D],
                     seqs [lit ''2'', Cls ''3456'', rep D 2 2],
                     seqs [lit ''27'', Cls ''01'', D],
                     lit ''2720''],
               rep D 12 12]),
     wb (seqs [lit ''3'', Cls ''47'', rep D 13 13]),
     wb (seqs [alts [lit ''6011'',
                     seqs [lit ''65'', rep D 2 2],
                     seqs [lit ''64'', Cls ''456789'', D],
                     seqs [lit ''6221'', rep D 2 2],
                     seqs [lit ''6222'', rep D 2 2],
                     seqs [lit ''6223'', rep D 2 2],
                     seqs [lit ''6224'', rep D 2 2],
                     seqs [lit ''6225'', rep D 2 2],
                     seqs [lit ''6226'', rep D 2 2],
                     seqs [lit ''6227'', rep D 2 2],
                     seqs [lit ''6228'', rep D 2 2],
                     seqs [lit ''6229'', rep D 2 2]],
               rep D 10 12]),
     wb (rep (Seq D (Rep (Cls '' -'') 0 None False)) 13 16)]"

text \<open>The fifteen phone patterns (lines 66-109), in the order of the source.\<close>

definition phonePatterns :: "re list" where
  "phonePatterns = [
     wb (seqs [lit ''+'', rep D 1 4, opt (Cls '' .-''), rep D 1 14,
               star (Seq (opt (Cls '' .-'')) (rep D 1 14))]),
     wb (seqs [lit ''+'', rep D 1 4, opt (Cls '' .-''), lit ''('', rep D 1 4, lit '')'',
               opt (Cls '' .-''), rep D 1 14, star (Seq (opt (Cls '' .-'')) (rep D 1 14))]),
     wb (seqs [lit ''+'', rep D 1 4, opt (Cls '' .-''), rep D 1 4, opt (Cls '' .-''),
               rep D 1 14, plus (Seq (lit ''/'') (rep D 1 4))]),
     wb (seqs [lit ''1'', opt (Cls '' .-''), opt (lit ''(''), rep D 3 3, opt (lit '')''),
               opt (Cls '' .-''), rep D 3 3, opt (Cls '' .-''), rep D 4 4]),
     wb (seqs [rep D 3 3, opt (Cls ''.-''), rep D 3 3, opt (Cls ''.-''), rep D 4 4]),
     wb (seqs [rep D 1 4, Cls '' '', rep D 1 4, Cls '' '', rep D 1 4, Cls '' '', rep D 1 4]),
     wb (seqs [rep D 6 10, rep (Seq (lit ''/'') (rep D 1 4)) 1 5]),
     wb (seqs [lit ''('', rep D 3 3, lit '')'', opt (Cls '' .-''), rep D 3 3,
               opt (Cls '' .-''), rep D 4 4]),
     wb (seqs [lit ''+'', rep D 1 4, Cls '' '', rep D 4 4, Cls '' '', rep D 6 6]),
     wb (seqs [lit ''+'', rep D 1 4, lit ''('', rep D 3 3, lit '')'', rep D 3 3,
               opt (Cls ''-''), rep D 4 4]),
     wb (seqs [rep D 3 3, Cls ''-'', rep D 3 3, Cls ''-'', rep D 4 4]),
     wb (seqs [lit ''+'', rep D 1 4, opt (Cls '' ''), rep D 1 4, opt (Cls '' ''), rep D 4 4,
               opt (Cls '' ''), rep D 4 4]),
     wb (seqs [lit ''+'', rep D 10 15]),
     wb (seqs [lit ''+'', rep D 1 4, opt (Cls '' ''), rep D 1 4, opt (Cls '' ''), rep D 1 4,
               opt (Cls '' ''), rep D 1 4]),
     wb (seqs [rep D 1 4, opt (Cls '' -''), rep D 1 4, opt (Cls '' -''), rep D 1 4,
               opt (Cls '' -''), rep D 1 4])]"

text \<open>The four address patterns (lines 112-120); the first two carry the \<open>i\<close> flag.\<close>

definition addressPatterns :: "re list" where
  "addressPatterns = [
     wb (seqs [plus D, plus (Cls spaces), plus (Cls (uppers @ lowers @ digits @ spaces @ '',.-'')),
               alts [liti ''Avenue'', liti ''Ave'', liti ''Street'', liti ''St'', liti ''Road'',
                     liti ''Rd'', liti ''Boulevard'', liti ''Blvd'', liti ''Lane'', liti ''Ln'',
                     liti ''Drive'', liti ''Dr'', liti ''Court'', liti ''Ct'', liti ''Plaza'',
                     liti ''Plz'', liti ''Square'', liti ''Sq'']]),
     wb (seqs [liti ''P'', opt (lit ''.''), liti ''O'', opt (lit ''.''), star (Cls spaces),
               liti ''Box'', plus (Cls spaces), plus D]),
     wb (seqs [rep (Cls uppers) 1 2, D, opt (Cls (uppers @ digits)), lit '' '', D,
               rep (Cls uppers) 2 2]),
     wb (seqs [rep D 5 5, opt (Seq (lit ''-'') (rep D 4 4))])]"

text \<open>\<open>/\b\d{3}[-]?\d{2}[-]?\d{4}\b/g\<close>\<close>

definition ssnPattern :: re where
  "ssnPattern = wb (seqs [rep D 3 3, opt (Cls ''-''), rep D 2 2, opt (Cls ''-''), rep D 4 4])"

text \<open>The replacer of lines 141-147 and 156-162; it does not read \<open>offset\<close>.\<close>

definition phoneReplacer :: "string \<Rightarrow> nat \<Rightarrow> string \<Rightarrow> string" where
  "phoneReplacer match offset string =
     (if isPartOfUrl match string then match
      else if isLikelyPhoneNumber match then ''[PHONE REDACTED]'' else match)"

text \<open>\<open>phonePatterns.forEach\<close> over the replacer: one pass of all phone patterns.\<close>

definition phonePass :: "string \<Rightarrow> string" where
  "phonePass maskedText =
     foldl (\<lambda>t pattern. replace_fn pattern phoneReplacer t) maskedText phonePatterns"

text \<open>The loop of lines 152-164, \<open>pass\<close> being its body. The source has no other exit than
  \<open>previousMaskedText === maskedText\<close>; a loop that never leaves is the value \<open>None\<close>.\<close>

partial_function (option) rescan :: "(string \<Rightarrow> string) \<Rightarrow> string \<Rightarrow> string \<Rightarrow> string option" where
  "rescan pass previousMaskedText maskedText =
     (if previousMaskedText \<noteq> maskedText then rescan pass maskedText (pass maskedText)
      else Some maskedText)"

declare rescan.simps [code]

text \<open>\<open>maskSensitiveInfo\<close> (lines 24-175). The parameter has the type \<open>string\<close>, so the test of
  line 25 never fires.\<close>

definition maskSensitiveInfo :: "string option \<Rightarrow> string \<Rightarrow> string option" where
  "maskSensitiveInfo env text =
     (if \<not> isMaskingEnabled env then Some text
      else
        let maskedText = text;
            emailMatches = match_all emailPattern text;
            maskedText = (if 0 < length emailMatches
                          then replace_str emailPattern ''[EMAIL REDACTED]'' maskedText
                          else maskedText);
            maskedText = foldl (\<lambda>t pattern. replace_str pattern ''[CARD NUMBER REDACTED]'' t)
                           maskedText creditCardPatterns;
            maskedText = phonePass maskedText
        in case rescan phonePass [] maskedText of
             None \<Rightarrow> None
           | Some maskedText \<Rightarrow>
               let maskedText = foldl (\<lambda>t pattern. replace_str pattern ''[ADDRESS REDACTED]'' t)
                                  maskedText addressPatterns;
                   maskedText = replace_str ssnPattern ''[SSN REDACTED]'' maskedText
               in Some maskedText)"


section \<open>utils/time.ts\<close>

datatype tunit = Seconds | Minutes | Hours | Days | Weeks

text \<open>\<open>UNIT_MAP\<close> (lines 95-101), \<open>None\<close> where the object has no such key.\<close>

definition UNIT_MAP :: "string \<Rightarrow> tunit option" where
  "UNIT_MAP key =
     (if key = ''s'' then Some Seconds
      else if key = ''m'' then Some Minutes
      else if key = ''h'' then Some Hours
      else if key = ''d'' then Some Days
      else if key = ''w'' then Some Weeks
      else None)"

text \<open>\<open>/^-([0-9]+)([smhdw])$/i\<close>\<close>

definition RELATIVE_REGEX :: re where
  "RELATIVE_REGEX = seqs [Bol, lit ''-'', plus (Cls digits), Cls ''smhdwSMHDW'', Eol]"

text \<open>\<open>token.match(RELATIVE_REGEX)\<close>: \<open>None\<close> for \<open>null\<close>, else the two groups. The pattern is
  anchored at both ends and its second group is one character, so the first group is what
  stands between the hyphen and the last character.\<close>

definition match_relative :: "string \<Rightarrow> (string \<times> string) option" where
  "match_relative token =
     (if re_test RELATIVE_REGEX token then Some (butlast (tl token), [last token]) else None)"

text \<open>\<open>parseInt(s, 10)\<close> on a string of decimal digits. (A JavaScript number is a double, exact
  up to \<open>2^53\<close>; the model keeps the integer.)\<close>

definition parseInt :: "string \<Rightarrow> int" where
  "parseInt ds = foldl (\<lambda>n c. 10 * n + (of_char c - 48)) 0 ds"

text \<open>
  The operations of the \<open>moment\<close> package that the file calls, as parameters: \<open>'m\<close> is the type
  of moment objects, \<open>format m\<close> is \<open>m.format()\<close>, \<open>subtract m n u\<close> is
  \<open>moment(m).subtract(n, u)\<close>, \<open>moment s\<close> is \<open>moment(s)\<close> and \<open>isValid m\<close> is \<open>m.isValid()\<close>.
\<close>

record 'm moment_lib =
  format :: "'m \<Rightarrow> string"
  subtract :: "'m \<Rightarrow> int \<Rightarrow> tunit \<Rightarrow> 'm"
  moment :: "string \<Rightarrow> 'm"
  isValid :: "'m \<Rightarrow> bool"

text \<open>What \<open>if (s)\<close> and \<open>!s\<close> test on a \<open>string | undefined\<close>: defined and not empty.\<close>

definition truthy :: "string option \<Rightarrow> bool" where
  "truthy s = (case s of None \<Rightarrow> False | Some v \<Rightarrow> v \<noteq> [])"

text \<open>\<open>parseTimeToken\<close> (lines 122-140).\<close>

definition parseTimeToken :: "'m moment_lib \<Rightarrow> string option \<Rightarrow> 'm \<Rightarrow> string option" where
  "parseTimeToken L token now =
     (if \<not> truthy token then None
      else
        let tok = the token in
          if toLowerCase tok = ''now'' then Some (format L now)
          else
            (case (case match_relative tok of
                     Some (g1, g2) \<Rightarrow>
                       let amount = parseInt g1;
                           unitKey = toLowerCase g2
                       in (case UNIT_MAP unitKey of
                             Some unit \<Rightarrow> Some (format L (subtract L now amount unit))
                           | None \<Rightarrow> None)
                   | None \<Rightarrow> None) of
               Some r \<Rightarrow> Some r
             | None \<Rightarrow>
                 let parsed = moment L tok
                 in if isValid L parsed then Some (format L parsed) else None))"

text \<open>
  What line 168-170 would raise or misuse: \<open>NullMatch\<close> when \<open>to.match(RELATIVE_REGEX)!\<close> is
  \<open>null\<close> and its groups are read, \<open>NoUnit\<close> when \<open>UNIT_MAP\<close> has no entry for the unit and
  \<open>undefined\<close> is handed to \<open>subtract\<close>.
\<close>

datatype error = NullMatch | NoUnit

text \<open>\<open>parseTimeRange\<close> (lines 151-185); \<open>now\<close> is the \<open>moment()\<close> of line 152. The comparison
  of line 177 is the comparison of the two formatted strings.\<close>

definition parseTimeRange :: "'m moment_lib \<Rightarrow> 'm \<Rightarrow> string option \<Rightarrow> string option \<Rightarrow> error + (string option \<times> string option)" where
  "parseTimeRange L now from to =
     (let resolvedFrom = parseTimeToken L from now;
          resolvedTo = parseTimeToken L to now;
          finalFrom = resolvedFrom;
          finalTo = resolvedTo;
          finalTo = (if truthy finalFrom \<and> \<not> truthy to then Some (format L now) else finalTo)
      in case (if \<not> truthy from \<and> truthy to \<and> match_relative (the to) \<noteq> None
                  \<and> \<not> truthy resolvedFrom
               then (case match_relative (the to) of
                       None \<Rightarrow> Inl NullMatch
                     | Some (g1, g2) \<Rightarrow>
                         let amount = parseInt g1 in
                           (case UNIT_MAP (toLowerCase g2) of
                              None \<Rightarrow> Inl NoUnit
                            | Some unit \<Rightarrow>
                                Inr (Some (format L (subtract L now amount unit)),
                                     Some (format L now))))
               else Inr (finalFrom, finalTo)) of
           Inl e \<Rightarrow> Inl e
         | Inr (finalFrom, finalTo) \<Rightarrow>
             if truthy finalFrom \<and> truthy finalTo \<and> the finalFrom > the finalTo
             then Inr (finalTo, finalFrom)
             else Inr (finalFrom, finalTo))"


section \<open>The moment package on one host\<close>

text \<open>
  To run \<open>parseTimeRange\<close> on concrete tokens, the operations of \<open>moment\<close> for a host whose
  clock and time zone are given. A moment object is \<open>Some t\<close>, \<open>t\<close> the milliseconds since the
  epoch, or \<open>None\<close> when it is invalid. A zone has one change of offset: \<open>before\<close> minutes east
  of UTC until the instant \<open>change\<close>, \<open>after\<close> from then on.
\<close>

record zone =
  before :: int
  after :: int
  change :: int

definition utcOffset :: "zone \<Rightarrow> int \<Rightarrow> int" where
  "utcOffset z t = (if t < change z then before z else after z)"

text \<open>The instant of a local time; a local time that occurs twice or never is read with the
  offset before the change, as \<open>Date\<close> does.\<close>

definition to_utc :: "zone \<Rightarrow> int \<Rightarrow> int" where
  "to_utc z loc =
     (if loc - before z * 60000 < change z then loc - before z * 60000
      else if change z \<le> loc - after z * 60000 then loc - after z * 60000
      else loc - before z * 60000)"

text \<open>The range of a \<open>Date\<close>: 100 million days either side of the epoch.\<close>

definition in_range :: "int \<Rightarrow> int option" where
  "in_range t = (if \<bar>t\<bar> \<le> 8640000000000000 then Some t else None)"

text \<open>Year, month and day of a day number (days since 1970-01-01), in the proleptic Gregorian
  calendar with the year 0, and back.\<close>

definition civil_from_days :: "int \<Rightarrow> int \<times> int \<times> int" where
  "civil_from_days z0 =
     (let z = z0 + 719468;
          era = z div 146097;
          doe = z - era * 146097;
          yoe = (doe - doe div 1460 + doe div 36524 - doe div 146096) div 365;
          y = yoe + era * 400;
          doy = doe - (365 * yoe + yoe div 4 - yoe div 100);
          mp = (5 * doy + 2) div 153;
          d = doy - (153 * mp + 2) div 5 + 1;
          m = (if mp < 10 then mp + 3 else mp - 9)
      in (if m \<le> 2 then y + 1 else y, m, d))"

definition days_from_civil :: "int \<Rightarrow> int \<Rightarrow> int \<Rightarrow> int" where
  "days_from_civil y0 m d =
     (let y = (if m \<le> 2 then y0 - 1 else y0);
          era = y div 400;
          yoe = y - era * 400;
          doy = (153 * (if m > 2 then m - 3 else m + 9) + 2) div 5 + d - 1;
          doe = yoe * 365 + yoe div 4 - yoe div 100 + doy
      in era * 146097 + doe - 719468)"

function show_nat :: "nat \<Rightarrow> string" where
  "show_nat n =
     (if n < 10 then [char_of (48 + n)] else show_nat (n div 10) @ [char_of (48 + n mod 10)])"
  by pat_completeness auto
termination
  by (relation "measure id") auto

declare show_nat.simps [simp del]

text \<open>\<open>zeroFill\<close> of moment: the sign, then the absolute value padded with zeros.\<close>

definition zeroFill :: "int \<Rightarrow> nat \<Rightarrow> string" where
  "zeroFill number targetLength =
     (let absNumber = show_nat (nat \<bar>number\<bar>)
      in (if 0 \<le> number then [] else ''-'')
         @ replicate (targetLength - length absNumber) (CHR ''0'') @ absNumber)"

text \<open>\<open>format()\<close> of a moment in local mode: the default format \<open>YYYY-MM-DDTHH:mm:ssZ\<close>.\<close>

definition zformat :: "zone \<Rightarrow> int option \<Rightarrow> string" where
  "zformat z m =
     (case m of
        None \<Rightarrow> ''Invalid date''
      | Some t \<Rightarrow>
          let off = utcOffset z t;
              loc = t + off * 60000;
              (y, mo, d) = civil_from_days (loc div 86400000);
              ms = loc mod 86400000
          in zeroFill y 4 @ ''-'' @ zeroFill mo 2 @ ''-'' @ zeroFill d 2 @ ''T''
             @ zeroFill (ms div 3600000) 2 @ '':'' @ zeroFill (ms div 60000 mod 60) 2 @ '':''
             @ zeroFill (ms div 1000 mod 60) 2
             @ (if off < 0 then ''-'' else ''+'') @ zeroFill (\<bar>off\<bar> div 60) 2 @ '':''
             @ zeroFill (\<bar>off\<bar> mod 60) 2)"

text \<open>\<open>subtract\<close>: seconds, minutes and hours move the instant; days and weeks move the local
  date and keep the local time of day, and an amount of 0 moves nothing.\<close>

definition zsubtract :: "zone \<Rightarrow> int option \<Rightarrow> int \<Rightarrow> tunit \<Rightarrow> int option" where
  "zsubtract z m amount unit =
     (case m of
        None \<Rightarrow> None
      | Some t \<Rightarrow>
          (case unit of
             Seconds \<Rightarrow> in_range (t - amount * 1000)
           | Minutes \<Rightarrow> in_range (t - amount * 60000)
           | Hours \<Rightarrow> in_range (t - amount * 3600000)
           | Days \<Rightarrow>
               if amount = 0 then Some t
               else in_range (to_utc z (t + utcOffset z t * 60000 - amount * 86400000))
           | Weeks \<Rightarrow>
               if amount = 0 then Some t
               else in_range (to_utc z (t + utcOffset z t * 60000 - amount * 7 * 86400000))))"

definition num2 :: "string \<Rightarrow> int option" where
  "num2 s = (if length s = 2 \<and> set s \<subseteq> set digits then Some (parseInt s) else None)"

text \<open>
  \<open>moment(s)\<close> for the ISO 8601 layouts \<open>YYYY-MM-DD\<close>, \<open>YYYY-MM-DDTHH:mm:ss\<close> and the latter
  followed by \<open>Z\<close> or by an offset \<open>+HH:mm\<close> or \<open>-HH:mm\<close> between -12:00 and +14:00. \<open>read_clock\<close>
  reads the date and the time of day as milliseconds, \<open>24:00:00\<close> being the start of the next
  day; \<open>read_offset\<close> reads the offset in minutes. Without an offset the time is local time of the
  host. Every other string is left invalid here, though moment reads more layouts than
  these.
\<close>

definition read_clock :: "string \<Rightarrow> int option" where
  "read_clock s =
     (if length s = 19 \<and> set (take 4 s) \<subseteq> set digits \<and> s ! 4 = CHR ''-'' \<and> s ! 7 = CHR ''-''
         \<and> s ! 10 = CHR ''T'' \<and> s ! 13 = CHR '':'' \<and> s ! 16 = CHR '':''
      then
        (case (num2 (take 2 (drop 5 s)), num2 (take 2 (drop 8 s)), num2 (take 2 (drop 11 s)),
               num2 (take 2 (drop 14 s)), num2 (take 2 (drop 17 s))) of
           (Some mo, Some d, Some h, Some mi, Some sec) \<Rightarrow>
             let y = parseInt (take 4 s) in
               if snd (civil_from_days (days_from_civil y mo d)) = (mo, d)
                  \<and> (h < 24 \<or> (h = 24 \<and> mi = 0 \<and> sec = 0)) \<and> mi < 60 \<and> sec < 60
               then Some ((days_from_civil y mo d * 86400 + h * 3600 + mi * 60 + sec) * 1000)
               else None
         | _ \<Rightarrow> None)
      else None)"

definition read_offset :: "string \<Rightarrow> int option" where
  "read_offset s =
     (if s = ''Z'' then Some 0
      else if length s = 6 \<and> s ! 0 \<in> set ''+-'' \<and> s ! 3 = CHR '':''
      then
        (case (num2 (take 2 (drop 1 s)), num2 (drop 4 s)) of
           (Some oh, Some om) \<Rightarrow>
             if om < 60 \<and> oh * 60 + om \<le> (if s ! 0 = CHR ''-'' then 720 else 840)
             then Some ((if s ! 0 = CHR ''-'' then - 1 else 1) * (oh * 60 + om))
             else None
         | _ \<Rightarrow> None)
      else None)"

definition zmoment :: "zone \<Rightarrow> string \<Rightarrow> int option" where
  "zmoment z s =
     (if length s = 10 then map_option (to_utc z) (read_clock (s @ ''T00:00:00''))
      else if length s = 19 then map_option (to_utc z) (read_clock s)
      else
        (case (read_clock (take 19 s), read_offset (drop 19 s)) of
           (Some loc, Some off) \<Rightarrow> Some (loc - off * 60000)
         | _ \<Rightarrow> None))"

definition host :: "zone \<Rightarrow> (int option) moment_lib" where
  "host z = \<lparr> format = zformat z, subtract = zsubtract z, moment = zmoment z,
               isValid = (\<lambda>m. m \<noteq> None) \<rparr>"

definition UTC :: zone where
  "UTC = \<lparr> before = 0, after = 0, change = 0 \<rparr>"

text \<open>New York around the end of daylight saving time in 2026: UTC-4 until
  2026-11-01T06:00:00Z, UTC-5 from then on.\<close>

definition New_York :: zone where
  "New_York = \<lparr> before = - 240, after = - 300, change = 1793512800000 \<rparr>"


section \<open>Notions used in the proofs\<close>

text \<open>\<open>reach p xs q ys\<close>: the matcher, started before \<open>xs\<close> with \<open>p\<close> the character in front,
  can stand before \<open>ys\<close> with \<open>q\<close> in front: \<open>ys\<close> is a suffix of \<open>xs\<close>, and \<open>q\<close> is the last
  character read, or \<open>p\<close> when nothing was read.\<close>

definition reach :: "char option \<Rightarrow> string \<Rightarrow> char option \<Rightarrow> string \<Rightarrow> bool" where
  "reach p xs q ys = (\<exists>cs. xs = cs @ ys \<and> q = (if cs = [] then p else Some (last cs)))"

text \<open>The number of decimal digits of a text.\<close>

definition nd :: "string \<Rightarrow> nat" where
  "nd s = length (filter (\<lambda>c. c \<in> set digits) s)"






text \<open>The number of maximal runs of decimal digits in a text; \<open>druns b\<close> counts them when the
  character in front of the text is a digit (\<open>b\<close>) or not.\<close>

fun druns :: "bool \<Rightarrow> string \<Rightarrow> nat" where
  "druns b [] = 0"
| "druns b (c # cs) = (if c \<in> set digits \<and> \<not> b then 1 else 0) + druns (c \<in> set digits) cs"

definition digit_runs :: "string \<Rightarrow> nat" where
  "digit_runs s = druns False s"

text \<open>Is the character in front a digit; does the text not start with a digit.\<close>

definition isd :: "char option \<Rightarrow> bool" where
  "isd p = (case p of None \<Rightarrow> False | Some c \<Rightarrow> c \<in> set digits)"

definition no_digit_first :: "string \<Rightarrow> bool" where
  "no_digit_first s = (case s of [] \<Rightarrow> True | c # _ \<Rightarrow> c \<notin> set digits)"

text \<open>A replacer that leaves a match as it is or puts a text without digits, not empty, in its
  place.\<close>

definition covers :: "(string \<Rightarrow> nat \<Rightarrow> string \<Rightarrow> string) \<Rightarrow> string \<Rightarrow> bool" where
  "covers f w = (\<forall>m off. f m off w = m \<or> (nd (f m off w) = 0 \<and> f m off w \<noteq> []))"

text \<open>The text as it reaches the loop of line 153: after the email pattern, the card patterns
  and the first pass of the phone patterns (lines 126-148).\<close>

definition loop_entry :: "string \<Rightarrow> string" where
  "loop_entry text =
     phonePass (foldl (\<lambda>t pattern. replace_str pattern ''[CARD NUMBER REDACTED]'' t)
       (if 0 < length (match_all emailPattern text)
        then replace_str emailPattern ''[EMAIL REDACTED]'' text else text) creditCardPatterns)"


section \<open>The matcher and \<open>replace\<close>\<close>

lemma reach_refl: "reach p xs p xs"
  by (simp add: reach_def)

lemma reach_step: "reach p (c # ys) (Some c) ys"
  unfolding reach_def by (rule exI [of _ "[c]"]) simp

lemma reach_trans: "reach p xs q ys \<Longrightarrow> reach q ys q' zs \<Longrightarrow> reach p xs q' zs"
  unfolding reach_def
proof (elim exE conjE)
  fix cs ds
  assume a: "xs = cs @ ys" "q = (if cs = [] then p else Some (last cs))"
    and b: "ys = ds @ zs" "q' = (if ds = [] then q else Some (last ds))"
  show "\<exists>es. xs = es @ zs \<and> q' = (if es = [] then p else Some (last es))"
    using a b by (intro exI [of _ "cs @ ds"]) auto
qed

lemma reach_length: "reach p xs q ys \<Longrightarrow> length ys \<le> length xs"
  by (auto simp: reach_def)

lemma mt_Some:
  "mt r p xs k = Some v \<Longrightarrow> \<exists>q ys. reach p xs q ys \<and> k q ys = Some v"
proof (induction r p xs k arbitrary: v rule: mt.induct)
  case (1 cs p xs k)
  then show ?case
    by (auto split: list.splits if_splits intro: reach_step)
next
  case (2 cs p xs k)
  then show ?case
    by (auto split: list.splits if_splits intro: reach_step)
next
  case (3 a b p xs k)
  from "3.prems" have "mt a p xs (\<lambda>q ys. if length ys \<le> length xs then mt b q ys k else None) = Some v"
    by simp
  from "3.IH"(2) [OF this] obtain q ys where
    r1: "reach p xs q ys" and l: "length ys \<le> length xs" and m: "mt b q ys k = Some v"
    by (auto split: if_splits)
  from "3.IH"(1) [OF l m] obtain q' zs where "reach q ys q' zs" "k q' zs = Some v" by blast
  with r1 show ?case by (blast intro: reach_trans)
next
  case (4 a b p xs k)
  then show ?case
    by (auto split: option.splits)
next
  case (5 r mn mx g p xs k)
  show ?case
  proof (cases "mx = Some 0")
    case True
    with "5.prems" show ?thesis by (auto intro: reach_refl)
  next
    case nz: False
    show ?thesis
    proof (cases "0 < mn")
      case True
      with nz "5.prems" have "mt r p xs (\<lambda>q ys. if length ys \<le> length xs
                           then mt (Rep r (mn - 1) (dec mx) g) q ys k else None) = Some v"
        by simp
      from "5.IH"(2) [OF nz True this] obtain q ys where
        r1: "reach p xs q ys" and l: "length ys \<le> length xs"
        and m: "mt (Rep r (mn - 1) (dec mx) g) q ys k = Some v"
        by (auto split: if_splits)
      from "5.IH"(1) [OF nz True l m] obtain q' zs where "reach q ys q' zs" "k q' zs = Some v"
        by blast
      with r1 show ?thesis by (blast intro: reach_trans)
    next
      case z: False
      let ?K = "\<lambda>q ys. if length ys < length xs then mt (Rep r 0 (dec mx) g) q ys k else None"
      from nz z "5.prems" have "mt r p xs ?K = Some v \<or> k p xs = Some v"
        by (auto split: if_splits option.splits)
      then show ?thesis
      proof
        assume k: "k p xs = Some v"
        then show ?thesis by (blast intro: reach_refl)
      next
        assume a: "mt r p xs ?K = Some v"
        show ?thesis
        proof (cases g)
          case True
          from "5.IH"(4) [OF nz z True a] obtain q ys where
            r1: "reach p xs q ys" and l: "length ys < length xs"
            and m: "mt (Rep r 0 (dec mx) g) q ys k = Some v"
            by (auto split: if_splits)
          from "5.IH"(3) [OF nz z True l m] obtain q' zs where "reach q ys q' zs" "k q' zs = Some v"
            by blast
          with r1 show ?thesis by (blast intro: reach_trans)
        next
          case False
          show ?thesis
          proof (cases "k p xs")
            case None
            from "5.IH"(6) [OF nz z False None a] obtain q ys where
              r1: "reach p xs q ys" and l: "length ys < length xs"
              and m: "mt (Rep r 0 (dec mx) g) q ys k = Some v"
              by (auto split: if_splits)
            from "5.IH"(5) [OF nz z False None l m] obtain q' zs where
              "reach q ys q' zs" "k q' zs = Some v"
              by blast
            with r1 show ?thesis by (blast intro: reach_trans)
          next
            case (Some w)
            with nz z False "5.prems" have "k p xs = Some v" by simp
            then show ?thesis by (blast intro: reach_refl)
          qed
        qed
      qed
    qed
  qed
next
  case (6 p xs k)
  then show ?case by (auto split: if_splits intro: reach_refl)
next
  case (7 p xs k)
  then show ?case by (auto split: if_splits intro: reach_refl)
next
  case (8 p xs k)
  then show ?case by (auto split: if_splits intro: reach_refl)
next
  case (9 p xs k)
  then show ?case by (auto intro: reach_refl)
qed

lemma nd_append: "nd (xs @ ys) = nd xs + nd ys"
  by (simp add: nd_def)

lemma nd_Cons: "nd (c # cs) = (if c \<in> set digits then 1 else 0) + nd cs"
  by (simp add: nd_def)

lemma nd_Nil: "nd [] = 0"
  by (simp add: nd_def)

lemma exec_at_reach: "exec_at r p xs = Some (q, ys) \<Longrightarrow> reach p xs q ys"
  unfolding exec_at_def by (drule mt_Some) auto

lemma exec_at_split:
  assumes "exec_at r p xs = Some (q, ys)"
  shows "xs = take (length xs - length ys) xs @ ys"
proof -
  from exec_at_reach [OF assms] obtain cs where "xs = cs @ ys" by (auto simp: reach_def)
  then show ?thesis by simp
qed

lemma no_match_from_unchanged:
  "match_from r p xs = [] \<Longrightarrow> replace_from r f w off p xs = xs"
proof (induction xs arbitrary: off p)
  case Nil
  then show ?case
    by (subst replace_from.simps, subst (asm) match_from.simps)
       (auto split: option.splits if_splits)
next
  case (Cons c cs)
  from Cons.prems have e: "exec_at r p (c # cs) = None" and m: "match_from r (Some c) cs = []"
    by (subst (asm) match_from.simps, auto split: option.splits if_splits)+
  from Cons.IH [OF m] e show ?case
    by (subst replace_from.simps) simp
qed

lemma strip_non_digits:
  "replace_from (NCls digits) (\<lambda>m off whole. []) w off p xs = filter (\<lambda>c. c \<in> set digits) xs"
proof (induction xs arbitrary: off p)
  case Nil
  show ?case by (subst replace_from.simps) (simp add: exec_at_def)
next
  case (Cons c cs)
  show ?case by (subst replace_from.simps) (simp add: exec_at_def Cons)
qed

lemma isLikelyPhoneNumber_nd: "isLikelyPhoneNumber m = (7 \<le> nd m \<and> nd m \<le> 15)"
  by (simp add: isLikelyPhoneNumber_def replace_str_def replace_fn_def strip_non_digits nd_def Let_def)

lemma nd_placeholder: "nd ''[PHONE REDACTED]'' = 0"
  by (simp add: nd_def digits_def)

lemma phoneReplacer_cases:
  "phoneReplacer m off w = m \<or> (phoneReplacer m off w = ''[PHONE REDACTED]'' \<and> 7 \<le> nd m)"
  by (simp add: phoneReplacer_def isLikelyPhoneNumber_nd)

lemma phoneReplacer_shrinks:
  "phoneReplacer m off w = m \<or> nd (phoneReplacer m off w) < nd m"
  using phoneReplacer_cases [of m off w] by (auto simp: nd_placeholder)

lemma replace_from_shrinks:
  "\<forall>m off. f m off whole = m \<or> nd (f m off whole) < nd m \<Longrightarrow>
   nd (replace_from r f whole off p xs) \<le> nd xs
   \<and> (nd (replace_from r f whole off p xs) = nd xs \<longrightarrow> replace_from r f whole off p xs = xs)"
proof (induction r f whole off p xs rule: replace_from.induct)
  case (1 r f whole off p xs)
  have f0: "f [] off whole = []" using "1.prems" by (auto simp: nd_Nil dest: spec [of _ "[]"])
  show ?case
  proof (cases "exec_at r p xs")
    case None
    show ?thesis
    proof (cases xs)
      case Nil
      with None show ?thesis by (subst (1 2 3) replace_from.simps) simp
    next
      case (Cons c cs)
      have "nd (replace_from r f whole (Suc off) (Some c) cs) \<le> nd cs
         \<and> (nd (replace_from r f whole (Suc off) (Some c) cs) = nd cs
              \<longrightarrow> replace_from r f whole (Suc off) (Some c) cs = cs)"
        using "1.IH" None Cons "1.prems" by blast
      with None Cons
      show ?thesis by (subst (1 2 3) replace_from.simps) (auto simp: nd_Cons)
    qed
  next
    case (Some a)
    then obtain q ys where ex: "exec_at r p xs = Some (q, ys)" by (cases a) auto
    show ?thesis
    proof (cases "length ys < length xs")
      case True
      let ?m = "take (length xs - length ys) xs"
      have xs: "xs = ?m @ ys" by (rule exec_at_split [OF ex])
      have ndxs: "nd xs = nd ?m + nd ys" by (subst xs) (simp only: nd_append)
      let ?rec = "replace_from r f whole (off + (length xs - length ys)) q ys"
      have eq: "replace_from r f whole off p xs = f ?m off whole @ ?rec"
        using ex True by (subst replace_from.simps) simp
      have ih: "nd ?rec \<le> nd ys \<and> (nd ?rec = nd ys \<longrightarrow> ?rec = ys)"
        using "1.IH" ex True "1.prems" by blast
      from "1.prems" have fm: "f ?m off whole = ?m \<or> nd (f ?m off whole) < nd ?m" by blast
      show ?thesis
      proof (intro conjI impI)
        show "nd (replace_from r f whole off p xs) \<le> nd xs"
          using ih fm by (auto simp: eq ndxs nd_append)
      next
        assume "nd (replace_from r f whole off p xs) = nd xs"
        then have e: "nd (f ?m off whole) + nd ?rec = nd ?m + nd ys"
          by (simp add: eq ndxs nd_append)
        from fm have le: "nd (f ?m off whole) \<le> nd ?m" by auto
        from e le ih have "nd ?rec = nd ys" "nd (f ?m off whole) = nd ?m" by auto
        with ih fm have "?rec = ys" "f ?m off whole = ?m" by auto
        then have "replace_from r f whole off p xs = ?m @ ys" by (simp add: eq)
        with xs show "replace_from r f whole off p xs = xs" by simp
      qed
    next
      case False
      show ?thesis
      proof (cases xs)
        case Nil
        with ex False f0 show ?thesis by (subst (1 2 3) replace_from.simps) simp
      next
        case (Cons c cs)
        have "nd (replace_from r f whole (Suc off) (Some c) cs) \<le> nd cs
           \<and> (nd (replace_from r f whole (Suc off) (Some c) cs) = nd cs
                \<longrightarrow> replace_from r f whole (Suc off) (Some c) cs = cs)"
          using "1.IH" ex False Cons "1.prems" by blast
        with ex False Cons f0
        show ?thesis by (subst (1 2 3) replace_from.simps) (auto simp: nd_Cons)
      qed
    qed
  qed
qed

lemma replace_fn_phone_shrinks:
  "nd (replace_fn r phoneReplacer t) \<le> nd t
   \<and> (nd (replace_fn r phoneReplacer t) = nd t \<longrightarrow> replace_fn r phoneReplacer t = t)"
  unfolding replace_fn_def by (rule replace_from_shrinks) (simp add: phoneReplacer_shrinks)

lemma foldl_phone_shrinks:
  "nd (foldl (\<lambda>t pattern. replace_fn pattern phoneReplacer t) t ps) \<le> nd t
   \<and> (nd (foldl (\<lambda>t pattern. replace_fn pattern phoneReplacer t) t ps) = nd t
        \<longrightarrow> foldl (\<lambda>t pattern. replace_fn pattern phoneReplacer t) t ps = t)"
proof (induction ps arbitrary: t)
  case Nil
  show ?case by simp
next
  case (Cons r ps)
  from Cons [of "replace_fn r phoneReplacer t"] replace_fn_phone_shrinks [of r t]
  show ?case by auto
qed

lemma phonePass_shrinks:
  "nd (phonePass t) \<le> nd t \<and> (nd (phonePass t) = nd t \<longrightarrow> phonePass t = t)"
  unfolding phonePass_def by (rule foldl_phone_shrinks)

lemma rescan_converges:
  assumes pass: "\<And>t. mu (pass t) \<le> mu t \<and> (mu (pass t) = mu t \<longrightarrow> pass t = t)"
  shows "\<exists>n\<le>mu cur. rescan pass prev cur = Some ((pass ^^ n) cur)
           \<and> (\<forall>m<n. (pass ^^ Suc m) cur \<noteq> (pass ^^ m) cur)
           \<and> (prev \<noteq> cur \<longrightarrow> pass ((pass ^^ n) cur) = (pass ^^ n) cur)"
proof (induction "mu cur" arbitrary: prev cur rule: less_induct)
  case less
  show ?case
  proof (cases "prev = cur")
    case True
    then have "rescan pass prev cur = Some ((pass ^^ 0) cur)"
      by (subst rescan.simps) simp
    with True show ?thesis by (intro exI [of _ 0]) simp
  next
    case ne: False
    then have step: "rescan pass prev cur = rescan pass cur (pass cur)"
      by (subst rescan.simps) simp
    show ?thesis
    proof (cases "pass cur = cur")
      case True
      then have "rescan pass cur (pass cur) = Some ((pass ^^ 0) cur)"
        by (subst rescan.simps) simp
      with step True show ?thesis by (intro exI [of _ 0]) simp
    next
      case False
      with pass [of cur] have lt: "mu (pass cur) < mu cur" by auto
      from less [OF lt, of cur] False obtain n where
        n: "n \<le> mu (pass cur)" "rescan pass cur (pass cur) = Some ((pass ^^ n) (pass cur))"
           "\<forall>m<n. (pass ^^ Suc m) (pass cur) \<noteq> (pass ^^ m) (pass cur)"
           "pass ((pass ^^ n) (pass cur)) = (pass ^^ n) (pass cur)"
        by auto
      have sw: "\<And>k. (pass ^^ k) (pass cur) = (pass ^^ Suc k) cur" by (simp add: funpow_swap1)
      have ch: "(pass ^^ Suc m) cur \<noteq> (pass ^^ m) cur" if "m < Suc n" for m
      proof (cases m)
        case 0
        with False show ?thesis by simp
      next
        case (Suc k)
        with that have "k < n" by simp
        with n(3) have "(pass ^^ Suc k) (pass cur) \<noteq> (pass ^^ k) (pass cur)" by blast
        then show ?thesis unfolding sw Suc .
      qed
      have r: "rescan pass prev cur = Some ((pass ^^ Suc n) cur)"
        using step n(2) sw [of n] by (simp del: funpow.simps)
      have f: "pass ((pass ^^ Suc n) cur) = (pass ^^ Suc n) cur"
        using n(4) sw [of n] by (simp del: funpow.simps)
      from n(1) lt have le: "Suc n \<le> mu cur" by simp
      from le r ch f show ?thesis by blast
    qed
  qed
qed


section \<open>Digit runs\<close>

text \<open>Every pattern of \<open>maskSensitiveInfo\<close> starts and ends with \<open>\b\<close>, so a match never cuts
  a run of digits in two, and replacing it by a placeholder does not add a run.\<close>

lemma druns_append:
  "druns b (xs @ ys) = druns b xs + druns (if xs = [] then b else last xs \<in> set digits) ys"
  by (induction xs arbitrary: b) auto

lemma druns_no_digits: "nd xs = 0 \<Longrightarrow> druns b xs = 0"
  by (induction xs arbitrary: b) (auto simp: nd_Cons nd_Nil split: if_splits)

lemma nd_zero_last: "nd xs = 0 \<Longrightarrow> xs \<noteq> [] \<Longrightarrow> last xs \<notin> set digits"
  by (induction xs) (auto simp: nd_Cons split: if_splits)

lemma nd_zero_first: "nd xs = 0 \<Longrightarrow> no_digit_first xs"
  by (cases xs) (auto simp: nd_Cons no_digit_first_def split: if_splits)

lemma druns_flag: "no_digit_first xs \<Longrightarrow> druns b xs = druns b' xs"
  by (cases xs) (auto simp: no_digit_first_def)

lemma druns_le_flag: "druns True xs \<le> druns b xs"
  by (cases xs) auto

lemma druns_pos: "1 \<le> nd xs \<Longrightarrow> \<not> (b \<and> \<not> no_digit_first xs) \<Longrightarrow> 1 \<le> druns b xs"
proof (induction xs arbitrary: b)
  case Nil
  then show ?case by (simp add: nd_Nil)
next
  case (Cons c cs)
  show ?case
  proof (cases "c \<in> set digits")
    case True
    with Cons.prems show ?thesis by (auto simp: no_digit_first_def)
  next
    case False
    with Cons.prems have "1 \<le> nd cs" by (simp add: nd_Cons)
    from Cons.IH [OF this, of False] False show ?thesis by simp
  qed
qed

lemma digits_are_words: "c \<in> set digits \<Longrightarrow> is_word c"
  by (auto simp: is_word_def)

lemma boundary_not_both_digits: "at_boundary p xs \<Longrightarrow> isd p \<Longrightarrow> no_digit_first xs"
  by (auto simp: at_boundary_def isd_def no_digit_first_def digits_are_words
           split: option.splits list.splits)

lemma wb_boundaries:
  assumes "exec_at (wb r) p xs = Some (q, ys)"
  shows "at_boundary p xs \<and> at_boundary q ys"
proof -
  from assms have b: "at_boundary p xs"
    and m: "mt r p xs (\<lambda>q' ys'. if length ys' \<le> length xs
                then mt WordB q' ys' (\<lambda>q ys. Some (q, ys)) else None) = Some (q, ys)"
    by (auto simp: exec_at_def wb_def split: if_splits)
  from mt_Some [OF m] have "at_boundary q ys" by (auto split: if_splits)
  with b show ?thesis by simp
qed

lemma covers_first:
  "covers f w \<Longrightarrow> no_digit_first xs \<Longrightarrow> no_digit_first (replace_from r f w off p xs)"
proof -
  assume c: "covers f w" and n: "no_digit_first xs"
  have f: "\<And>m. m \<noteq> [] \<Longrightarrow> no_digit_first m \<Longrightarrow> no_digit_first (f m off w @ z)" for z
  proof -
    fix m :: string assume "m \<noteq> []" "no_digit_first m"
    from c have "f m off w = m \<or> (nd (f m off w) = 0 \<and> f m off w \<noteq> [])"
      by (simp add: covers_def)
    then show "no_digit_first (f m off w @ z)"
    proof
      assume "f m off w = m"
      with \<open>m \<noteq> []\<close> \<open>no_digit_first m\<close> show ?thesis
        by (cases m) (auto simp: no_digit_first_def)
    next
      assume a: "nd (f m off w) = 0 \<and> f m off w \<noteq> []"
      with nd_zero_first [of "f m off w"] show ?thesis
        by (cases "f m off w") (auto simp: no_digit_first_def)
    qed
  qed
  have f0: "no_digit_first z \<Longrightarrow> no_digit_first (f [] off w @ z)" for z
  proof -
    assume z: "no_digit_first z"
    from c have "f [] off w = [] \<or> (nd (f [] off w) = 0 \<and> f [] off w \<noteq> [])"
      by (simp add: covers_def)
    then show ?thesis
    proof
      assume "f [] off w = []" with z show ?thesis by simp
    next
      assume a: "nd (f [] off w) = 0 \<and> f [] off w \<noteq> []"
      with nd_zero_first [of "f [] off w"] show ?thesis
        by (cases "f [] off w") (auto simp: no_digit_first_def)
    qed
  qed
  show ?thesis
  proof (cases "exec_at r p xs")
    case None
    with n show ?thesis
      by (subst replace_from.simps) (auto simp: no_digit_first_def split: list.splits)
  next
    case (Some a)
    then obtain q ys where ex: "exec_at r p xs = Some (q, ys)" by (cases a) auto
    show ?thesis
    proof (cases "length ys < length xs")
      case True
      from exec_at_reach [OF ex] obtain m where xs: "xs = m @ ys" by (auto simp: reach_def)
      from True xs have ne: "m \<noteq> []" by auto
      have tk: "take (length xs - length ys) xs = m" by (simp add: xs)
      from n ne have "no_digit_first m"
        by (cases m) (auto simp: no_digit_first_def xs)
      from f [OF ne this] ex True tk show ?thesis
        by (subst replace_from.simps) simp
    next
      case False
      have "no_digit_first (case xs of [] \<Rightarrow> [] | c # cs \<Rightarrow> c # replace_from r f w (Suc off) (Some c) cs)"
        using n by (auto simp: no_digit_first_def split: list.splits)
      from f0 [OF this] ex False show ?thesis
        by (subst replace_from.simps) simp
    qed
  qed
qed

lemma covers_empty:
  assumes "covers f w"
  shows "f [] off w = [] \<or> (nd (f [] off w) = 0 \<and> f [] off w \<noteq> [])"
  using assms by (simp add: covers_def)

lemma replace_from_runs:
  "covers f w \<Longrightarrow>
   druns (isd p) (replace_from (wb r) f w off p xs) \<le> druns (isd p) xs
   \<and> ((\<forall>m off. f m off w \<noteq> m \<longrightarrow> 1 \<le> nd m) \<longrightarrow>
        druns (isd p) (replace_from (wb r) f w off p xs) = druns (isd p) xs \<longrightarrow>
        replace_from (wb r) f w off p xs = xs)"
proof (induction "length xs" arbitrary: xs off p rule: less_induct)
  case less
  note c = less.prems
  let ?res = "replace_from (wb r) f w off p xs"
  let ?strict = "\<forall>m off. f m off w \<noteq> m \<longrightarrow> 1 \<le> nd m"
  \<comment> \<open>no match here, or an empty one: the first character is kept\<close>
  have keep0: "druns (isd p) (c # replace_from (wb r) f w (Suc off) (Some c) cs) \<le> druns (isd p) (c # cs)
      \<and> (?strict \<longrightarrow> druns (isd p) (c # replace_from (wb r) f w (Suc off) (Some c) cs)
              = druns (isd p) (c # cs)
            \<longrightarrow> replace_from (wb r) f w (Suc off) (Some c) cs = cs)"
    if xs: "xs = c # cs" for c cs
  proof -
    from xs have "length cs < length xs" by simp
    from less.hyps [OF this c, of "Some c" "Suc off"] show ?thesis
      by (auto simp: isd_def)
  qed
  show ?case
  proof (cases "exec_at (wb r) p xs")
    case None
    show ?thesis
    proof (cases xs)
      case Nil
      with None show ?thesis by (subst (1 2 3) replace_from.simps) simp
    next
      case (Cons c cs)
      have e: "replace_from (wb r) f w off p (c # cs) = c # replace_from (wb r) f w (Suc off) (Some c) cs"
        using None Cons by (subst replace_from.simps) simp
      from keep0 [OF Cons] show ?thesis
        by (simp only: Cons e) blast
    qed
  next
    case (Some a)
    then obtain q ys where ex: "exec_at (wb r) p xs = Some (q, ys)" by (cases a) auto
    from wb_boundaries [OF ex] have bp: "at_boundary p xs" and bq: "at_boundary q ys" by auto
    show ?thesis
    proof (cases "length ys < length xs")
      case True
      let ?rec = "replace_from (wb r) f w (off + (length xs - length ys)) q ys"
      from exec_at_reach [OF ex] obtain m where xs: "xs = m @ ys"
        and qm: "q = (if m = [] then p else Some (last m))" by (auto simp: reach_def)
      from True xs have ne: "m \<noteq> []" by auto
      have tk: "take (length xs - length ys) xs = m" by (simp add: xs)
      from qm ne have q: "q = Some (last m)" by simp
      then have iq: "isd q = (last m \<in> set digits)" by (simp add: isd_def)
      have eq: "?res = f m off w @ ?rec"
        using ex True tk by (subst replace_from.simps) simp
      have ih0: "druns (isd q) ?rec \<le> druns (isd q) ys
                \<and> (?strict \<longrightarrow> druns (isd q) ?rec = druns (isd q) ys \<longrightarrow> ?rec = ys)"
        by (rule less.hyps [OF True c])
      then have ih: "druns (isd q) ?rec \<le> druns (isd q) ys" by (rule conjunct1)
      from ih0 have ih2: "?strict \<Longrightarrow> druns (isd q) ?rec = druns (isd q) ys \<Longrightarrow> ?rec = ys"
        by blast
      have dx: "druns (isd p) xs = druns (isd p) m + druns (isd q) ys"
        by (simp only: xs druns_append ne iq if_False)
      show ?thesis
      proof (cases "f m off w = m")
        case same: True
        have dr: "druns (isd p) ?res = druns (isd p) m + druns (isd q) ?rec"
          by (simp only: eq same druns_append ne iq if_False)
        show ?thesis
        proof (intro conjI impI)
          show "druns (isd p) ?res \<le> druns (isd p) xs" using dr dx ih by simp
        next
          assume s: ?strict and e: "druns (isd p) ?res = druns (isd p) xs"
          from e dr dx ih have "druns (isd q) ?rec = druns (isd q) ys" by simp
          from ih2 [OF s this] have "?rec = ys" .
          then have "?res = m @ ys" by (simp only: eq same)
          then show "?res = xs" by (simp only: xs)
        qed
      next
        case diff: False
        with c have repl: "nd (f m off w) = 0 \<and> f m off w \<noteq> []"
          by (auto simp: covers_def)
        then have l: "last (f m off w) \<notin> set digits" by (simp add: nd_zero_last)
        have dr: "druns (isd p) ?res = druns False ?rec"
          using repl l by (simp add: eq druns_append druns_no_digits)
        have ys_first: "isd q \<Longrightarrow> no_digit_first ys"
          by (rule boundary_not_both_digits [OF bq])
        have "druns False ?rec \<le> druns (isd q) ys"
        proof (cases "isd q")
          case False
          with ih show ?thesis by simp
        next
          case True
          from covers_first [OF c ys_first [OF True]] have "no_digit_first ?rec" .
          from druns_flag [OF this, of False "isd q"] ih show ?thesis by simp
        qed
        with dr dx have le: "druns (isd p) ?res \<le> druns (isd p) xs" by simp
        have strict: "druns (isd p) ?res < druns (isd p) xs" if "1 \<le> nd m"
        proof -
          have "\<not> (isd p \<and> \<not> no_digit_first m)"
          proof
            assume a: "isd p \<and> \<not> no_digit_first m"
            from boundary_not_both_digits [OF bp] a have "no_digit_first (m @ ys)"
              by (simp add: xs)
            with ne have "no_digit_first m"
              by (cases m) (auto simp: no_digit_first_def)
            with a show False by simp
          qed
          from druns_pos [OF that this] have "1 \<le> druns (isd p) m" .
          with dr dx \<open>druns False ?rec \<le> druns (isd q) ys\<close> show ?thesis by simp
        qed
        show ?thesis
        proof (intro conjI impI)
          show "druns (isd p) ?res \<le> druns (isd p) xs" by (rule le)
        next
          assume s: ?strict and e: "druns (isd p) ?res = druns (isd p) xs"
          from s diff have "1 \<le> nd m" by blast
          from strict [OF this] e show "?res = xs" by simp
        qed
      qed
    next
      case False
      from exec_at_reach [OF ex] have "length ys \<le> length xs" by (rule reach_length)
      have eq: "?res = f [] off w @ (case xs of [] \<Rightarrow> [] | c # cs \<Rightarrow> c # replace_from (wb r) f w (Suc off) (Some c) cs)"
        using ex False by (subst replace_from.simps) simp
      show ?thesis
      proof (cases xs)
        case Nil
        have e0: "?res = f [] off w" using eq by (simp add: Nil)
        show ?thesis
        proof (cases "f [] off w = []")
          case True
          with e0 Nil have "?res = xs" by simp
          then show ?thesis by simp
        next
          case False
          with covers_empty [OF c, of off] have "nd (f [] off w) = 0" by simp
          then have z: "druns (isd p) ?res = 0" by (simp only: e0 druns_no_digits)
          show ?thesis
          proof (intro conjI impI)
            show "druns (isd p) ?res \<le> druns (isd p) xs" by (simp only: z)
          next
            assume s: ?strict
            with False have "1 \<le> nd []" by blast
            then show "?res = xs" by (simp add: nd_Nil)
          qed
        qed
      next
        case (Cons c cs)
        let ?tail = "c # replace_from (wb r) f w (Suc off) (Some c) cs"
        have e1: "replace_from (wb r) f w off p (c # cs) = f [] off w @ ?tail"
          using eq by (simp add: Cons)
        from keep0 [OF Cons] have k1: "druns (isd p) ?tail \<le> druns (isd p) (c # cs)"
          by (rule conjunct1)
        from keep0 [OF Cons] have k2: "?strict \<Longrightarrow>
            druns (isd p) ?tail = druns (isd p) (c # cs) \<Longrightarrow> ?tail = c # cs"
          by blast
        show ?thesis
        proof (cases "f [] off w = []")
          case True
          then have e2: "replace_from (wb r) f w off p (c # cs) = ?tail" by (simp add: e1)
          from k1 k2 show ?thesis by (simp only: Cons e2) blast
        next
          case False
          with covers_empty [OF c, of off] have ins: "nd (f [] off w) = 0" by simp
          with False have l: "last (f [] off w) \<notin> set digits" by (simp add: nd_zero_last)
          have dr: "druns (isd p) (replace_from (wb r) f w off p (c # cs)) = druns False ?tail"
            using ins l False by (simp add: e1 druns_append druns_no_digits)
          have "druns False ?tail = druns (isd p) ?tail"
          proof (cases "isd p")
            case False
            then show ?thesis by simp
          next
            case True
            from boundary_not_both_digits [OF bp True] Cons have "c \<notin> set digits"
              by (simp add: no_digit_first_def)
            then show ?thesis by simp
          qed
          with dr k1 have le: "druns (isd p) (replace_from (wb r) f w off p (c # cs))
              \<le> druns (isd p) (c # cs)" by simp
          show ?thesis
          proof (intro conjI impI)
            show "druns (isd p) ?res \<le> druns (isd p) xs" using le by (simp only: Cons)
          next
            assume s: ?strict
            with False have "1 \<le> nd []" by blast
            then show "?res = xs" by (simp add: nd_Nil)
          qed
        qed
      qed
    qed
  qed
qed

lemma covers_phone: "covers phoneReplacer w"
  unfolding covers_def
proof (intro allI)
  fix m off
  from phoneReplacer_cases [of m off w]
  show "phoneReplacer m off w = m \<or> (nd (phoneReplacer m off w) = 0 \<and> phoneReplacer m off w \<noteq> [])"
    by (auto simp: nd_placeholder)
qed

lemma phone_strict: "\<forall>m off. phoneReplacer m off w \<noteq> m \<longrightarrow> 1 \<le> nd m"
  using phoneReplacer_cases by (metis One_nat_def Suc_leI less_le_trans zero_less_numeral)

lemma covers_const: "nd ph = 0 \<Longrightarrow> ph \<noteq> [] \<Longrightarrow> covers (\<lambda>m off whole. ph) w"
  by (simp add: covers_def)

lemma replace_fn_runs:
  assumes "covers f t"
  shows "digit_runs (replace_fn (wb r) f t) \<le> digit_runs t"
  using replace_from_runs [OF assms, of None r 0 t]
  by (simp add: digit_runs_def replace_fn_def isd_def)

lemma replace_fn_phone_runs:
  "digit_runs (replace_fn (wb r) phoneReplacer t) \<le> digit_runs t
   \<and> (digit_runs (replace_fn (wb r) phoneReplacer t) = digit_runs t
        \<longrightarrow> replace_fn (wb r) phoneReplacer t = t)"
  using replace_from_runs [OF covers_phone [of t], of None r 0 t] phone_strict [of t]
  by (simp add: digit_runs_def replace_fn_def isd_def)

lemma foldl_phone_runs:
  "\<forall>r\<in>set rs. \<exists>r0. r = wb r0 \<Longrightarrow>
   digit_runs (foldl (\<lambda>t pattern. replace_fn pattern phoneReplacer t) t rs) \<le> digit_runs t
   \<and> (digit_runs (foldl (\<lambda>t pattern. replace_fn pattern phoneReplacer t) t rs) = digit_runs t
        \<longrightarrow> foldl (\<lambda>t pattern. replace_fn pattern phoneReplacer t) t rs = t)"
proof (induction rs arbitrary: t)
  case Nil
  show ?case by simp
next
  case (Cons r rs)
  from Cons.prems obtain r0 where r: "r = wb r0" by auto
  from Cons.prems have "\<forall>r\<in>set rs. \<exists>r0. r = wb r0" by simp
  from Cons.IH [OF this, of "replace_fn r phoneReplacer t"] replace_fn_phone_runs [of r0 t] r
  show ?case by auto
qed

lemma foldl_str_runs:
  "\<forall>r\<in>set rs. \<exists>r0. r = wb r0 \<Longrightarrow> nd ph = 0 \<Longrightarrow> ph \<noteq> [] \<Longrightarrow>
   digit_runs (foldl (\<lambda>t pattern. replace_str pattern ph t) t rs) \<le> digit_runs t"
proof (induction rs arbitrary: t)
  case Nil
  show ?case by simp
next
  case (Cons r rs)
  from Cons.prems obtain r0 where r: "r = wb r0" by auto
  from Cons.prems have a: "\<forall>r\<in>set rs. \<exists>r0. r = wb r0" by simp
  have "digit_runs (replace_str r ph t) \<le> digit_runs t"
    unfolding replace_str_def r
    by (rule replace_fn_runs [OF covers_const [OF Cons.prems(2,3)]])
  with Cons.IH [OF a Cons.prems(2,3), of "replace_str r ph t"] show ?case by simp
qed

lemma phonePatterns_wb: "\<forall>r\<in>set phonePatterns. \<exists>r0. r = wb r0"
  unfolding phonePatterns_def by (simp only: list.set ball_simps) blast

lemma creditCardPatterns_wb: "\<forall>r\<in>set creditCardPatterns. \<exists>r0. r = wb r0"
  unfolding creditCardPatterns_def by (simp only: list.set ball_simps) blast

lemma phonePass_runs:
  "digit_runs (phonePass t) \<le> digit_runs t
   \<and> (digit_runs (phonePass t) = digit_runs t \<longrightarrow> phonePass t = t)"
  unfolding phonePass_def by (rule foldl_phone_runs [OF phonePatterns_wb])

lemma loop_entry_runs: "digit_runs (loop_entry text) \<le> digit_runs text"
proof -
  let ?e = "if 0 < length (match_all emailPattern text)
        then replace_str emailPattern ''[EMAIL REDACTED]'' text else text"
  let ?c = "foldl (\<lambda>t pattern. replace_str pattern ''[CARD NUMBER REDACTED]'' t) ?e creditCardPatterns"
  have ne: "nd ''[EMAIL REDACTED]'' = 0" "nd ''[CARD NUMBER REDACTED]'' = 0"
    by (simp_all add: nd_def digits_def)
  have "digit_runs (replace_str emailPattern ''[EMAIL REDACTED]'' text) \<le> digit_runs text"
    unfolding replace_str_def emailPattern_def
    by (rule replace_fn_runs [OF covers_const]) (simp_all add: ne)
  then have e: "digit_runs ?e \<le> digit_runs text" by simp
  have c: "digit_runs ?c \<le> digit_runs ?e"
    by (rule foldl_str_runs [OF creditCardPatterns_wb]) (simp_all add: ne)
  have "digit_runs (phonePass ?c) \<le> digit_runs ?c" using phonePass_runs by blast
  with e c show ?thesis unfolding loop_entry_def by simp
qed

lemma mask_through_loop:
  "isMaskingEnabled env \<Longrightarrow>
   maskSensitiveInfo env text =
     (case rescan phonePass [] (loop_entry text) of
        None \<Rightarrow> None
      | Some t \<Rightarrow> Some (replace_str ssnPattern ''[SSN REDACTED]''
          (foldl (\<lambda>t pattern. replace_str pattern ''[ADDRESS REDACTED]'' t) t addressPatterns)))"
  by (simp add: maskSensitiveInfo_def loop_entry_def Let_def split: option.splits)

lemma digit_runs_le_nd: "druns b s \<le> nd s"
proof (induction s arbitrary: b)
  case Nil
  show ?case by simp
next
  case (Cons c cs)
  from Cons [of "c \<in> set digits"] show ?case by (auto simp: nd_Cons)
qed


section \<open>Texts without digits and at signs\<close>















section \<open>Masking twice\<close>






section \<open>Phone numbers and URLs\<close>

text \<open>What the replacer decides for a candidate: it is redacted exactly when it has 7 to 15
  digits and \<open>isPartOfUrl\<close> is false of it, and \<open>isPartOfUrl\<close> looks in front of the first
  place where the candidate's text occurs in the text being searched.\<close>

lemma phoneReplacer_redacts:
  "phoneReplacer m off s = (if \<not> isPartOfUrl m s \<and> 7 \<le> nd m \<and> nd m \<le> 15
                           then ''[PHONE REDACTED]'' else m)"
  by (simp add: phoneReplacer_def isLikelyPhoneNumber_nd)

text \<open>
  C3. The claim is that a candidate is redacted exactly when it has 7 to 15 digits and the
  text in front of that match does not end in an unfinished URL, so that digits in the path
  of a URL are never redacted. The program tests the text in front of the first occurrence
  of the candidate instead. In the first text below the number stands alone before it
  stands in the path of a URL, and both are redacted; in the second it stands in the URL
  first, and the number that stands alone afterwards is left as it is.
\<close>

theorem url_digits_redacted:
  "maskSensitiveInfo None ''5551234567 http://a.b/5551234567''
     = Some ''[PHONE REDACTED] http://a.b/[PHONE REDACTED]''
   \<and> maskSensitiveInfo None ''http://a.b/5551234567 or 5551234567''
     = Some ''http://a.b/5551234567 or 5551234567''"
  by code_simp


section \<open>The re-scan loop\<close>





text \<open>
  C8. For every text the loop of the phone patterns ends, whatever the text before it was:
  it returns the text after \<open>n\<close> passes that changed it, where \<open>n\<close> is at most the number of
  runs of digits of the text it starts from, and (when the loop runs at all) one more pass
  leaves that result as it is. The reason is \<open>phonePass_runs\<close>: a replacement puts a
  placeholder without digits where a match with at least seven digits stood, and the match
  starts and ends at a word boundary, so a pass that changes the text removes a run of
  digits. The text that reaches the loop inside \<open>maskSensitiveInfo\<close> (\<open>mask_through_loop\<close>)
  has no more runs of digits than the original text, which has no more runs than digits.
\<close>

theorem rescan_terminates:
  "(\<exists>n\<le>digit_runs cur. rescan phonePass prev cur = Some ((phonePass ^^ n) cur)
      \<and> (\<forall>m<n. (phonePass ^^ Suc m) cur \<noteq> (phonePass ^^ m) cur)
      \<and> (prev \<noteq> cur \<longrightarrow> phonePass ((phonePass ^^ n) cur) = (phonePass ^^ n) cur))
   \<and> digit_runs (loop_entry text) \<le> digit_runs text
   \<and> digit_runs text \<le> nd text"
  using rescan_converges [of digit_runs phonePass cur prev, OF phonePass_runs]
    loop_entry_runs [of "text"] digit_runs_le_nd [of False "text"]
  by (simp add: digit_runs_def)

theorem rescan_terminates_witness:
  "(\<exists>n\<le>digit_runs ''Call 833-376-1995''.
      rescan phonePass [] ''Call 833-376-1995'' = Some ((phonePass ^^ n) ''Call 833-376-1995'')
      \<and> (\<forall>m<n. (phonePass ^^ Suc m) ''Call 833-376-1995'' \<noteq> (phonePass ^^ m) ''Call 833-376-1995'')
      \<and> phonePass ((phonePass ^^ n) ''Call 833-376-1995'') = (phonePass ^^ n) ''Call 833-376-1995'')
   \<and> digit_runs (loop_entry ''Call 833-376-1995'') \<le> digit_runs ''Call 833-376-1995''
   \<and> digit_runs ''Call 833-376-1995'' \<le> nd ''Call 833-376-1995''"
  using rescan_terminates [of "''Call 833-376-1995''" "[]" "''Call 833-376-1995''"] by simp






section \<open>Neither operation raises\<close>

lemma bol_only_at_start: "p \<noteq> None \<Longrightarrow> test_from RELATIVE_REGEX p xs = False"
  by (induction xs arbitrary: p) (auto simp: RELATIVE_REGEX_def exec_at_def)

text \<open>What \<open>RELATIVE_REGEX\<close> accepts, read off the matcher: a hyphen, one or more digits and one
  of the five unit letters in either case; the two groups are the digits and the letter.\<close>

lemma star_class_greedy:
  assumes "set ds \<subseteq> set cs" "rest = [] \<or> hd rest \<notin> set cs"
    "k (if ds = [] then p else Some (last ds)) rest = Some v"
  shows "mt (Rep (Cls cs) 0 None True) p (ds @ rest) k = Some v"
  using assms(1,3)
proof (induction ds arbitrary: p)
  case Nil
  with assms(2) show ?case
    by (subst mt.simps(5)) (cases rest; simp del: mt.simps(5))
next
  case (Cons d ds)
  from Cons.prems have s: "set ds \<subseteq> set cs" and d: "d \<in> set cs" by auto
  from Cons.prems have "k (if ds = [] then Some d else Some (last ds)) rest = Some v"
    by (auto split: if_splits)
  from Cons.IH [OF s this]
  have "mt (Rep (Cls cs) 0 None True) (Some d) (ds @ rest) k = Some v" .
  with d show ?case
    by (subst mt.simps(5)) (simp del: mt.simps(5))
qed

lemma rep_class_Some:
  "mt (Rep (Cls cs) mn None g) p xs k = Some v \<Longrightarrow>
   \<exists>ms ys. xs = ms @ ys \<and> set ms \<subseteq> set cs \<and> mn \<le> length ms
      \<and> k (if ms = [] then p else Some (last ms)) ys = Some v"
proof (induction "length xs" arbitrary: xs p mn rule: less_induct)
  case less
  let ?K = "\<lambda>n q ys. mt (Rep (Cls cs) n None g) q ys k"
  have step: "\<exists>ms ys. xs = ms @ ys \<and> set ms \<subseteq> set cs \<and> mn \<le> length ms
      \<and> k (if ms = [] then p else Some (last ms)) ys = Some v"
    if xs: "xs = c # zs" and c: "c \<in> set cs" and m: "?K (mn - 1) (Some c) zs = Some v" for c zs
  proof -
    from xs have "length zs < length xs" by simp
    from less.hyps [OF this m] obtain ms ys where
      a: "zs = ms @ ys" "set ms \<subseteq> set cs" "mn - 1 \<le> length ms"
         "k (if ms = [] then Some c else Some (last ms)) ys = Some v" by blast
    show ?thesis
    proof (intro exI conjI)
      show "xs = (c # ms) @ ys" using xs a(1) by simp
      show "set (c # ms) \<subseteq> set cs" using c a(2) by simp
      show "mn \<le> length (c # ms)" using a(3) by simp
      show "k (if c # ms = [] then p else Some (last (c # ms))) ys = Some v"
        using a(4) by (auto split: if_splits)
    qed
  qed
  note unfolded = less.prems [unfolded mt.simps(5) [of "Cls cs" mn None g p xs k]]
  show ?case
  proof (cases "0 < mn")
    case True
    with unfolded obtain c zs where "xs = c # zs" "c \<in> set cs" "?K (mn - 1) (Some c) zs = Some v"
      by (auto simp del: mt.simps(5) split: list.splits if_splits)
    then show ?thesis by (rule step)
  next
    case False
    then have z: "mn = 0" by simp
    show ?thesis
    proof (cases "\<exists>c zs. xs = c # zs \<and> c \<in> set cs \<and> ?K 0 (Some c) zs = Some v")
      case True
      then obtain c zs where "xs = c # zs" "c \<in> set cs" "?K (mn - 1) (Some c) zs = Some v"
        using z by auto
      then show ?thesis by (rule step)
    next
      case False
      with unfolded z have "k p xs = Some v"
        by (auto simp del: mt.simps(5) split: list.splits if_splits option.splits)
      with z show ?thesis by (intro exI [of _ "[]"] exI [of _ xs]) simp
    qed
  qed
qed

lemma exec_relative:
  "(exec_at RELATIVE_REGEX None tok \<noteq> None) =
   (\<exists>ds u. tok = CHR ''-'' # ds @ [u] \<and> ds \<noteq> [] \<and> set ds \<subseteq> set digits \<and> u \<in> set ''smhdwSMHDW'')"
proof
  assume "exec_at RELATIVE_REGEX None tok \<noteq> None"
  then obtain v where v: "exec_at RELATIVE_REGEX None tok = Some v" by auto
  let ?K = "\<lambda>q ys. if length ys \<le> length (tl tok)
                    then mt (Seq (Cls ''smhdwSMHDW'') Eol) q ys (\<lambda>q ys. Some (q, ys)) else None"
  from v obtain t1 where tok: "tok = CHR ''-'' # t1"
    and m: "mt (Rep (Cls digits) 1 None True) (Some CHR ''-'') t1 ?K = Some v"
    by (auto simp: RELATIVE_REGEX_def exec_at_def lit_def plus_def simp del: mt.simps(5)
             split: list.splits if_splits)
  from rep_class_Some [OF m] obtain ms ys where a: "t1 = ms @ ys" "set ms \<subseteq> set digits"
    "1 \<le> length ms" "?K (if ms = [] then Some CHR ''-'' else Some (last ms)) ys = Some v"
    by blast
  from a(4) obtain u where "ys = [u]" "u \<in> set ''smhdwSMHDW''"
    by (auto split: list.splits if_splits)
  with a tok show "\<exists>ds u. tok = CHR ''-'' # ds @ [u] \<and> ds \<noteq> [] \<and> set ds \<subseteq> set digits
      \<and> u \<in> set ''smhdwSMHDW''"
    by (intro exI [of _ ms] exI [of _ u]) auto
next
  assume "\<exists>ds u. tok = CHR ''-'' # ds @ [u] \<and> ds \<noteq> [] \<and> set ds \<subseteq> set digits
      \<and> u \<in> set ''smhdwSMHDW''"
  then obtain ds u where tok: "tok = CHR ''-'' # ds @ [u]" and ne: "ds \<noteq> []"
    and d: "set ds \<subseteq> set digits" and u: "u \<in> set ''smhdwSMHDW''" by blast
  from ne obtain d0 ds' where ds: "ds = d0 # ds'" by (cases ds) auto
  let ?k = "\<lambda>q ys. if length ys \<le> Suc (length ds' + 1)
                    then mt (Seq (Cls ''smhdwSMHDW'') Eol) q ys (\<lambda>q ys. Some (q, ys)) else None"
  have nd: "u \<notin> set digits" using u by (auto simp: digits_def)
  have "mt (Rep (Cls digits) 0 None True) (Some d0) (ds' @ [u]) ?k = Some (Some u, [])"
  proof (rule star_class_greedy)
    show "set ds' \<subseteq> set digits" using d ds by simp
    show "[u] = [] \<or> hd [u] \<notin> set digits" using nd by simp
    show "?k (if ds' = [] then Some d0 else Some (last ds')) [u] = Some (Some u, [])"
      using u by simp
  qed
  then have "mt (Rep (Cls digits) 1 None True) (Some CHR ''-'') (ds @ [u]) ?k = Some (Some u, [])"
    using d ds by (subst mt.simps(5)) (simp del: mt.simps(5))
  then have "exec_at RELATIVE_REGEX None tok = Some (Some u, [])"
    using ds by (simp add: RELATIVE_REGEX_def exec_at_def lit_def plus_def tok del: mt.simps(5))
  then show "exec_at RELATIVE_REGEX None tok \<noteq> None" by simp
qed

lemma match_relative_iff:
  "(match_relative tok = Some (g1, g2)) =
   (\<exists>u. tok = CHR ''-'' # g1 @ g2 \<and> g2 = [u] \<and> u \<in> set ''smhdwSMHDW''
        \<and> g1 \<noteq> [] \<and> set g1 \<subseteq> set digits)"
proof -
  have t: "re_test RELATIVE_REGEX tok = (exec_at RELATIVE_REGEX None tok \<noteq> None)"
    by (cases tok) (auto simp: re_test_def bol_only_at_start)
  show ?thesis
    unfolding match_relative_def t exec_relative
    by (auto simp: butlast_append)
qed

lemma relative_shape:
  assumes "exec_at RELATIVE_REGEX None tok = Some v"
  shows "\<exists>cs u. tok = CHR ''-'' # cs @ [u] \<and> u \<in> set ''smhdwSMHDW''"
proof -
  let ?K = "\<lambda>q ys. if length ys \<le> length (tl tok)
                    then mt (Seq (Cls ''smhdwSMHDW'') Eol) q ys (\<lambda>q ys. Some (q, ys)) else None"
  from assms obtain t1 where tok: "tok = CHR ''-'' # t1"
    and m: "mt (plus (Cls digits)) (Some CHR ''-'') t1 ?K = Some v"
    by (auto simp: RELATIVE_REGEX_def exec_at_def lit_def split: list.splits if_splits)
  from mt_Some [OF m] obtain q ys where r: "reach (Some CHR ''-'') t1 q ys"
    and k: "mt (Seq (Cls ''smhdwSMHDW'') Eol) q ys (\<lambda>q ys. Some (q, ys)) = Some v"
    by (auto split: if_splits)
  from k obtain u where "ys = [u]" "u \<in> set ''smhdwSMHDW''"
    by (auto split: list.splits if_splits)
  with r tok show ?thesis by (auto simp: reach_def)
qed

lemma lower_char_units:
  "lower_char CHR ''s'' = CHR ''s''" "lower_char CHR ''m'' = CHR ''m''"
  "lower_char CHR ''h'' = CHR ''h''" "lower_char CHR ''d'' = CHR ''d''"
  "lower_char CHR ''w'' = CHR ''w''" "lower_char CHR ''S'' = CHR ''s''"
  "lower_char CHR ''M'' = CHR ''m''" "lower_char CHR ''H'' = CHR ''h''"
  "lower_char CHR ''D'' = CHR ''d''" "lower_char CHR ''W'' = CHR ''w''"
  by code_simp+

lemma match_relative_unit:
  assumes "match_relative tok = Some (g1, g2)"
  shows "UNIT_MAP (toLowerCase g2) \<noteq> None"
proof -
  from assms have t: "re_test RELATIVE_REGEX tok" and g2: "g2 = [last tok]"
    by (auto simp: match_relative_def split: if_splits)
  from t have "exec_at RELATIVE_REGEX None tok \<noteq> None"
    by (cases tok) (auto simp: re_test_def bol_only_at_start)
  then obtain v where "exec_at RELATIVE_REGEX None tok = Some v" by auto
  from relative_shape [OF this] obtain cs u where "tok = CHR ''-'' # cs @ [u]"
    and u: "u \<in> set ''smhdwSMHDW''" by blast
  with g2 have "g2 = [u]" by simp
  moreover from u have "UNIT_MAP (toLowerCase [u]) \<noteq> None"
    by (auto simp: UNIT_MAP_def toLowerCase_def lower_char_units)
  ultimately show ?thesis by simp
qed

lemma parseTimeRange_total: "\<exists>r. parseTimeRange L now from to = Inr r"
proof (cases "\<not> truthy from \<and> truthy to \<and> match_relative (the to) \<noteq> None
              \<and> \<not> truthy (parseTimeToken L from now)")
  case True
  then obtain g1 g2 where m: "match_relative (the to) = Some (g1, g2)" by auto
  from match_relative_unit [OF m] obtain unit where "UNIT_MAP (toLowerCase g2) = Some unit"
    by auto
  with True m show ?thesis
    by (simp add: parseTimeRange_def Let_def)
next
  case False
  then show ?thesis
    by (auto simp: parseTimeRange_def Let_def)
qed

lemma mask_total: "\<exists>s. maskSensitiveInfo env text = Some s"
proof (cases "isMaskingEnabled env")
  case False
  then show ?thesis by (simp add: maskSensitiveInfo_def)
next
  case True
  have "\<And>prev cur. \<exists>r. rescan phonePass prev cur = Some r"
    using rescan_converges [of nd phonePass, OF phonePass_shrinks] by blast
  then obtain r where "rescan phonePass []
      (phonePass (foldl (\<lambda>t pattern. replace_str pattern ''[CARD NUMBER REDACTED]'' t)
          (if 0 < length (match_all emailPattern text)
           then replace_str emailPattern ''[EMAIL REDACTED]'' text else text) creditCardPatterns)) = Some r"
    by blast
  with True show ?thesis
    by (simp add: maskSensitiveInfo_def Let_def)
qed

lemma parseTimeToken_unparseable:
  "toLowerCase tok \<noteq> ''now'' \<Longrightarrow> match_relative tok = None \<Longrightarrow> \<not> isValid L (moment L tok)
   \<Longrightarrow> parseTimeToken L (Some tok) now = None"
  by (simp add: parseTimeToken_def Let_def)

text \<open>
  C9. Neither operation raises. \<open>parseTimeRange\<close> returns a range for every pair of tokens,
  every clock and every behaviour of the moment package: the two places where it reads a
  match or a unit that might be missing are never reached without one. A token that is not
  \<open>now\<close>, not a relative expression and not a date moment accepts (an unsupported unit, any
  other malformed text) gives an absent field. \<open>maskSensitiveInfo\<close> returns a text for every
  input and every setting of the toggle, and a pattern that matches nowhere in a text
  leaves the text as it is.
\<close>

theorem never_raises:
  "(\<exists>r. parseTimeRange L now from to = Inr r)
   \<and> (toLowerCase tok \<noteq> ''now'' \<and> match_relative tok = None \<and> \<not> isValid L (moment L tok)
        \<longrightarrow> parseTimeToken L (Some tok) now = None)
   \<and> (\<exists>s. maskSensitiveInfo env text = Some s)
   \<and> (match_all r t = [] \<longrightarrow> replace_fn r f t = t)"
  using parseTimeRange_total [of L now "from" to] parseTimeToken_unparseable [of tok L now]
    mask_total [of env "text"] no_match_from_unchanged [of r None t f t 0]
  by (simp add: match_all_def replace_fn_def)

theorem never_raises_witness:
  "(\<exists>r. parseTimeRange (host UTC) (Some 1793664000000) (Some ''-5y'') (Some ''tomorrow'') = Inr r)
   \<and> parseTimeToken (host UTC) (Some ''-5y'') (Some 1793664000000) = None
   \<and> (\<exists>s. maskSensitiveInfo None ''hello'' = Some s)
   \<and> replace_fn ssnPattern (\<lambda>m off whole. ''[SSN REDACTED]'') ''hello'' = ''hello''"
proof -
  have a: "toLowerCase ''-5y'' \<noteq> ''now''" by code_simp
  have b: "match_relative ''-5y'' = None" by code_simp
  have c: "\<not> isValid (host UTC) (moment (host UTC) ''-5y'')" by code_simp
  have d: "match_all ssnPattern ''hello'' = []" by code_simp
  from never_raises [of "host UTC" "Some 1793664000000" "Some ''-5y''" "Some ''tomorrow''" "''-5y''"
      None "''hello''" ssnPattern "''hello''" "\<lambda>m off whole. ''[SSN REDACTED]''"] a b c d
  show ?thesis by blast
qed


section \<open>The masking toggle\<close>

text \<open>
  C7. The toggle is a function of the one configuration string: masking is off exactly when
  the value, in lower case, is one of \<open>0\<close>, \<open>false\<close>, \<open>no\<close>, \<open>off\<close>; a value that is absent, empty,
  one of the four words for on, or anything else leaves it on. When it is off,
  \<open>maskSensitiveInfo\<close> returns its input as it is.
\<close>

theorem masking_toggle:
  "isMaskingEnabled env =
     (\<not> (\<exists>v. env = Some v \<and> toLowerCase v \<in> {''0'', ''false'', ''no'', ''off''}))
   \<and> (isMaskingEnabled None \<and> isMaskingEnabled (Some []))
   \<and> (\<not> isMaskingEnabled env \<longrightarrow> maskSensitiveInfo env text = Some text)"
  by (auto simp: isMaskingEnabled_def maskSensitiveInfo_def toLowerCase_def Let_def
           split: option.splits)

theorem masking_toggle_witness:
  "\<not> isMaskingEnabled (Some ''OFF'')
   \<and> maskSensitiveInfo (Some ''OFF'') ''mail a@b.co, call 833-376-1995''
       = Some ''mail a@b.co, call 833-376-1995''
   \<and> isMaskingEnabled (Some ''on'') \<and> isMaskingEnabled (Some ''weird'')"
proof -
  have a: "\<not> isMaskingEnabled (Some ''OFF'')" by code_simp
  have b: "isMaskingEnabled (Some ''on'')" by code_simp
  have c: "isMaskingEnabled (Some ''weird'')" by code_simp
  from masking_toggle [of "Some ''OFF''" "''mail a@b.co, call 833-376-1995''"]
  have "\<not> isMaskingEnabled (Some ''OFF'') \<longrightarrow>
        maskSensitiveInfo (Some ''OFF'') ''mail a@b.co, call 833-376-1995''
          = Some ''mail a@b.co, call 833-376-1995''"
    by (rule conjunct2 [THEN conjunct2])
  with a b c show ?thesis by (intro conjI) (rule a, erule mp, rule a, rule b, rule c)
qed


section \<open>Time ranges\<close>

text \<open>The order that line 177 establishes is the order of the two formatted strings.\<close>

lemma parseTimeRange_string_order:
  assumes "parseTimeRange L now from to = Inr (Some f, Some t)" "f \<noteq> []" "t \<noteq> []"
  shows "f \<le> t"
proof -
  from assms show ?thesis
    by (auto simp: parseTimeRange_def Let_def truthy_def not_less
             split: if_splits option.splits sum.splits prod.splits)
qed

text \<open>
  C1. The claim is that \<open>from\<close> is never later than \<open>to\<close> when both are present. The program
  compares the formatted strings, and a later instant can have the smaller string. On a
  host in New York at 2026-11-01T06:10:00Z, ten minutes after the clocks went back,
  \<open>from = -20m\<close> with no \<open>to\<close> resolves to 01:50 local time (UTC-4) and \<open>to\<close> to 01:10 local
  time (UTC-5); the strings are out of order, the two are swapped, and the range returned
  starts at the present instant and ends twenty minutes before it.
\<close>

theorem range_out_of_order:
  "parseTimeRange (host New_York) (Some 1793513400000) (Some ''-20m'') None
     = Inr (Some (zformat New_York (Some 1793513400000)), Some (zformat New_York (Some 1793512200000)))
   \<and> zformat New_York (Some 1793513400000) = ''2026-11-01T01:10:00-05:00''
   \<and> zformat New_York (Some 1793512200000) = ''2026-11-01T01:50:00-04:00''"
  by code_simp

text \<open>On a host on UTC the same happens before the year 0, where an earlier year has the
  larger string: 200000 weeks ago comes back as the end of a range that starts 150000 weeks
  ago.\<close>

lemma range_out_of_order_before_year_zero:
  "parseTimeRange (host UTC) (Some 1793664000000) (Some ''-200000w'') (Some ''-150000w'')
     = Inr (Some (zformat UTC (Some (1793664000000 - 150000 * 604800000))),
            Some (zformat UTC (Some (1793664000000 - 200000 * 604800000))))
   \<and> zformat UTC (Some (1793664000000 - 150000 * 604800000)) = ''-0848-01-15T00:00:00+00:00''
   \<and> zformat UTC (Some (1793664000000 - 200000 * 604800000)) = ''-1807-10-08T00:00:00+00:00''"
  by code_simp

text \<open>What the window rule gives in general, the last step of \<open>parseTimeRange\<close> included, and
  that it applies only when \<open>from\<close> is absent or empty.\<close>

lemma window_rule:
  assumes "\<not> truthy from" "tok \<noteq> []" "match_relative tok = Some (g1, g2)"
    "UNIT_MAP (toLowerCase g2) = Some unit"
  shows "parseTimeRange L now from (Some tok) =
     Inr (if format L now \<noteq> [] \<and> format L now < format L (subtract L now (parseInt g1) unit)
          then (Some (format L now), Some (format L (subtract L now (parseInt g1) unit)))
          else (Some (format L (subtract L now (parseInt g1) unit)), Some (format L now)))"
  using assms
  by (auto simp: parseTimeRange_def parseTimeToken_def Let_def truthy_def)

lemma window_rule_needs_no_from:
  assumes "truthy from"
  shows "parseTimeRange L now from to =
     (let f = parseTimeToken L from now;
          t = (if truthy f \<and> \<not> truthy to then Some (format L now) else parseTimeToken L to now)
      in Inr (if truthy f \<and> truthy t \<and> the t < the f then (t, f) else (f, t)))"
  using assms by (auto simp: parseTimeRange_def Let_def)

text \<open>A relative token is not empty and is not \<open>now\<close>.\<close>

lemma relative_not_now:
  assumes "match_relative tok = Some (g1, g2)"
  shows "tok \<noteq> [] \<and> toLowerCase tok \<noteq> ''now''"
proof -
  from assms obtain u where "tok = CHR ''-'' # g1 @ g2" by (auto simp: match_relative_iff)
  moreover have "lower_char CHR ''-'' = CHR ''-''" by code_simp
  ultimately show ?thesis by (simp add: toLowerCase_def)
qed

text \<open>
  C10. An empty token is treated as a token left out. \<open>parseTimeToken\<close> gives nothing for it,
  and \<open>parseTimeRange\<close> gives the same range for an empty \<open>from\<close> as for no \<open>from\<close>, and for
  an empty \<open>to\<close> as for no \<open>to\<close>, whatever the other token is. With an empty \<open>to\<close>, \<open>to\<close> is
  the present time whenever \<open>from\<close> resolves. For a relative token \<open>tok\<close>, which resolves to the
  present time minus its magnitude: \<open>from = tok\<close> with an empty \<open>to\<close> gives that time and the
  present time, and an empty \<open>from\<close> with \<open>to = tok\<close> gives the window of that length ending
  now. In each case the two are in the order of line 177, that of the formatted strings.
\<close>

theorem empty_token_is_omitted:
  "parseTimeToken L (Some []) now = None
   \<and> parseTimeRange L now (Some []) to = parseTimeRange L now None to
   \<and> parseTimeRange L now from (Some []) = parseTimeRange L now from None
   \<and> parseTimeRange L now from (Some []) =
       (let f = parseTimeToken L from now;
            t = (if truthy f then Some (format L now) else None)
        in Inr (if truthy f \<and> truthy t \<and> the t < the f then (t, f) else (f, t)))
   \<and> (match_relative tok = Some (g1, g2) \<longrightarrow>
        (let a = format L (subtract L now (parseInt g1) (the (UNIT_MAP (toLowerCase g2))));
             n = format L now
         in parseTimeToken L (Some tok) now = Some a
            \<and> parseTimeRange L now (Some tok) (Some []) =
                Inr (if a = [] then (Some a, None)
                     else if n \<noteq> [] \<and> n < a then (Some n, Some a) else (Some a, Some n))
            \<and> parseTimeRange L now (Some []) (Some tok) =
                Inr (if n \<noteq> [] \<and> n < a then (Some n, Some a) else (Some a, Some n))))"
proof -
  have a: "parseTimeToken L (Some []) now = None"
    by (simp add: parseTimeToken_def truthy_def)
  have b: "parseTimeRange L now (Some []) to = parseTimeRange L now None to"
    by (simp add: parseTimeRange_def parseTimeToken_def truthy_def)
  have c: "parseTimeRange L now from (Some []) = parseTimeRange L now from None"
    by (simp add: parseTimeRange_def parseTimeToken_def truthy_def)
  have d: "parseTimeRange L now fr (Some []) =
       (let f = parseTimeToken L fr now;
            t = (if truthy f then Some (format L now) else None)
        in Inr (if truthy f \<and> truthy t \<and> the t < the f then (t, f) else (f, t)))" for fr
    by (auto simp: parseTimeRange_def parseTimeToken_def Let_def truthy_def)
  have e: "let a = format L (subtract L now (parseInt g1) (the (UNIT_MAP (toLowerCase g2))));
             n = format L now
         in parseTimeToken L (Some tok) now = Some a
            \<and> parseTimeRange L now (Some tok) (Some []) =
                Inr (if a = [] then (Some a, None)
                     else if n \<noteq> [] \<and> n < a then (Some n, Some a) else (Some a, Some n))
            \<and> parseTimeRange L now (Some []) (Some tok) =
                Inr (if n \<noteq> [] \<and> n < a then (Some n, Some a) else (Some a, Some n))"
    if m: "match_relative tok = Some (g1, g2)"
  proof -
    from match_relative_unit [OF m] obtain unit where u: "UNIT_MAP (toLowerCase g2) = Some unit"
      by auto
    from relative_not_now [OF m] have n: "tok \<noteq> []" "toLowerCase tok \<noteq> ''now''" by simp_all
    have t: "parseTimeToken L (Some tok) now = Some (format L (subtract L now (parseInt g1) unit))"
      using m u n by (simp add: parseTimeToken_def Let_def truthy_def)
    have f: "parseTimeRange L now (Some tok) (Some []) =
        Inr (if format L (subtract L now (parseInt g1) unit) = []
             then (Some (format L (subtract L now (parseInt g1) unit)), None)
             else if format L now \<noteq> [] \<and> format L now < format L (subtract L now (parseInt g1) unit)
                  then (Some (format L now), Some (format L (subtract L now (parseInt g1) unit)))
                  else (Some (format L (subtract L now (parseInt g1) unit)), Some (format L now)))"
      unfolding d [of "Some tok"] t by (auto simp: Let_def truthy_def)
    have w: "parseTimeRange L now (Some []) (Some tok) =
        Inr (if format L now \<noteq> [] \<and> format L now < format L (subtract L now (parseInt g1) unit)
             then (Some (format L now), Some (format L (subtract L now (parseInt g1) unit)))
             else (Some (format L (subtract L now (parseInt g1) unit)), Some (format L now)))"
      using window_rule [of "Some []" tok g1 g2 unit L now] m u n by (simp add: truthy_def)
    from t f w u show ?thesis by (simp add: Let_def)
  qed
  from a b c d [of "from"] e show ?thesis by blast
qed

theorem empty_token_is_omitted_witness:
  "parseTimeToken (host UTC) (Some []) (Some 1793664000000) = None
   \<and> parseTimeRange (host UTC) (Some 1793664000000) (Some ''-15m'') (Some [])
       = Inr (Some ''2026-11-02T23:45:00+00:00'', Some ''2026-11-03T00:00:00+00:00'')
   \<and> parseTimeRange (host UTC) (Some 1793664000000) (Some []) (Some ''-2h'')
       = Inr (Some ''2026-11-02T22:00:00+00:00'', Some ''2026-11-03T00:00:00+00:00'')"
proof -
  have m: "match_relative ''-2h'' = Some (''2'', ''h'')" by code_simp
  have n: "match_relative ''-15m'' = Some (''15'', ''m'')" by code_simp
  have f: "format (host UTC) (Some 1793664000000) = ''2026-11-03T00:00:00+00:00''" by code_simp
  have g: "format (host UTC) (subtract (host UTC) (Some 1793664000000) (parseInt ''2'')
             (the (UNIT_MAP (toLowerCase ''h'')))) = ''2026-11-02T22:00:00+00:00''" by code_simp
  have h: "format (host UTC) (subtract (host UTC) (Some 1793664000000) (parseInt ''15'')
             (the (UNIT_MAP (toLowerCase ''m'')))) = ''2026-11-02T23:45:00+00:00''" by code_simp
  have o1: "\<not> ''2026-11-03T00:00:00+00:00'' < ''2026-11-02T22:00:00+00:00''" by code_simp
  have o2: "\<not> ''2026-11-03T00:00:00+00:00'' < ''2026-11-02T23:45:00+00:00''" by code_simp
  from empty_token_is_omitted [of "host UTC" "Some 1793664000000" None None "''-2h''" "''2''" "''h''"] m
  have a: "parseTimeToken (host UTC) (Some []) (Some 1793664000000) = None
    \<and> parseTimeRange (host UTC) (Some 1793664000000) (Some []) (Some ''-2h'')
       = Inr (Some ''2026-11-02T22:00:00+00:00'', Some ''2026-11-03T00:00:00+00:00'')"
    unfolding Let_def f g using o1 by simp
  from empty_token_is_omitted [of "host UTC" "Some 1793664000000" None None "''-15m''" "''15''" "''m''"] n
  have b: "parseTimeRange (host UTC) (Some 1793664000000) (Some ''-15m'') (Some [])
       = Inr (Some ''2026-11-02T23:45:00+00:00'', Some ''2026-11-03T00:00:00+00:00'')"
    unfolding Let_def f h using o2 by simp
  from a b show ?thesis by simp
qed

text \<open>
  C4. The claim is that a relative \<open>to\<close> with no \<open>from\<close> gives \<open>to\<close> = now and \<open>from\<close> = now minus
  the magnitude, for every call. The window rule sets the two so (\<open>window_rule\<close>), but the
  comparison of strings that follows can exchange them. On the host of C1, at the same
  instant, \<open>to = -20m\<close> with no \<open>from\<close> returns \<open>from\<close> = now and \<open>to\<close> = now minus twenty minutes.
\<close>

theorem window_out_of_order:
  "parseTimeRange (host New_York) (Some 1793513400000) None (Some ''-20m'')
     = Inr (Some (zformat New_York (Some 1793513400000)), Some (zformat New_York (Some 1793512200000)))"
  by code_simp

text \<open>A token that is not \<open>now\<close> and not a relative expression goes to \<open>moment\<close>, and what is
  returned is the format of what \<open>moment\<close> made of it.\<close>

lemma parseTimeToken_calendar:
  assumes "tok \<noteq> []" "toLowerCase tok \<noteq> ''now''" "match_relative tok = None"
  shows "parseTimeToken L (Some tok) now =
     (if isValid L (moment L tok) then Some (format L (moment L tok)) else None)"
  using assms by (simp add: parseTimeToken_def Let_def truthy_def)

text \<open>
  C5. The claim is that a date and time which moment accepts comes back as the same instant
  with the time zone of the input kept. \<open>moment(token)\<close> is a moment in local mode, and
  \<open>format()\<close> writes it in the zone of the host: on a host on UTC, midnight at UTC+5 comes
  back as 19:00 of the day before at UTC+0, the same instant in another zone.
\<close>

theorem offset_not_kept:
  "parseTimeToken (host UTC) (Some ''2025-01-10T00:00:00+05:00'') (Some 1793664000000)
     = Some ''2025-01-09T19:00:00+00:00''"
  by code_simp

end
